theory Spec2Isabelle
  imports Complex_Main "HOL-Library.Log_Nat" "HOL-Library.AList"
begin

section \<open>JavaScript numbers\<close>

text \<open>
  Every JavaScript number is an IEEE-754 binary64 value, and every arithmetic operator
  returns the exact result rounded to the nearest such value, ties to the even
  significand. The finite values are real numbers, so a finite number is modelled by
  the real it denotes and rounding by the function \<open>dbl\<close> on the reals.

  \<open>ilog2 x\<close> is the binary exponent of a positive \<open>x\<close> (the \<open>e\<close> with
  \<open>2^e \<le> x < 2^(e+1)\<close>), \<open>rne\<close> rounds to the nearest integer, ties to even, and
  \<open>dbl x\<close> rounds \<open>x\<close> to 53 significant bits; below \<open>2^-1022\<close> the spacing
  stays that of the subnormal numbers. Overflow to \<open>Infinity\<close> is decided by
  \<open>js_number\<close>.
\<close>

definition ilog2 :: "real \<Rightarrow> int" where
  "ilog2 x = (if 1 \<le> x then int (floorlog 2 (nat \<lfloor>x\<rfloor>)) - 1
              else - int (floorlog 2 (nat (\<lceil>1 / x\<rceil> - 1))))"

definition rne :: "real \<Rightarrow> int" where
  "rne y = (let f = \<lfloor>y\<rfloor>; d = y - of_int f
            in if d < 1 / 2 then f else if 1 / 2 < d then f + 1
               else if even f then f else f + 1)"

definition dbl :: "real \<Rightarrow> real" where
  "dbl x = (if x = 0 then 0
            else let u = 2 powi (max (ilog2 \<bar>x\<bar>) (- 1022) - 52)
                 in u * of_int (rne (x / u)))"

text \<open>
  The numbers that a quotient or product of non-negative operands can be: a finite
  value, \<open>Infinity\<close> or \<open>NaN\<close>. The operations below are those of JavaScript on
  non-negative operands (the program divides and multiplies pixel counts only).
\<close>

datatype jsnum = Finite real | PosInfinity | NaN

definition js_number :: "real \<Rightarrow> jsnum" where
  "js_number x = (if 2 ^ 1024 \<le> dbl x then PosInfinity else Finite (dbl x))"

definition js_div :: "real \<Rightarrow> real \<Rightarrow> jsnum" where
  "js_div a b = (if b = 0 then (if a = 0 then NaN else PosInfinity)
                 else js_number (a / b))"

fun js_mul :: "real \<Rightarrow> jsnum \<Rightarrow> jsnum" where
  "js_mul a (Finite b) = js_number (a * b)"
| "js_mul a PosInfinity = (if a = 0 then NaN else PosInfinity)"
| "js_mul a NaN = NaN"

text \<open>\<open>Math.round\<close>: the nearest integer, a tie going up.\<close>

fun Math_round :: "jsnum \<Rightarrow> jsnum" where
  "Math_round (Finite x) = Finite (of_int \<lfloor>x + 1 / 2\<rfloor>)"
| "Math_round PosInfinity = PosInfinity"
| "Math_round NaN = NaN"

text \<open>
  \<open>(minQuality + maxQuality) / 2\<close> on two finite numbers: the sum is rounded, then
  the quotient. (The operands are at most 1, so nothing overflows.)
\<close>

definition js_midpoint :: "real \<Rightarrow> real \<Rightarrow> real" where
  "js_midpoint a b = dbl (dbl (a + b) / 2)"

section \<open>JavaScript strings\<close>

text \<open>
  \<open>s.lastIndexOf(c)\<close> is the index of the last occurrence of \<open>c\<close>, or \<open>-1\<close>.
  \<open>s.substring(start, end)\<close> clamps both indices to \<open>[0, length]\<close>, swaps them when
  the first is the larger, and returns the characters in between.
\<close>

fun lastIndexOf :: "string \<Rightarrow> char \<Rightarrow> int" where
  "lastIndexOf [] c = - 1"
| "lastIndexOf (x # xs) c =
     (let r = lastIndexOf xs c
      in if 0 \<le> r then r + 1 else if x = c then 0 else - 1)"

definition substring :: "string \<Rightarrow> int \<Rightarrow> int \<Rightarrow> string" where
  "substring s start end =
     (let len = int (length s);
          a = min (max start 0) len;
          b = min (max end 0) len;
          lo = min a b;
          hi = max a b
      in take (nat (hi - lo)) (drop (nat lo) s))"

text \<open>\<open>a || b\<close> on strings: the empty string is falsy.\<close>

definition or_string :: "string \<Rightarrow> string \<Rightarrow> string" where
  "or_string a b = (if a = [] then b else a)"

section \<open>Data model\<close>

text \<open>
  A \<open>Blob\<close> has a size and a type; a \<open>File\<close> is a blob with a name. The bytes are
  never inspected by the program and are kept as an opaque number. A result's
  \<open>processedBlob\<close> is either the original \<open>File\<close> object or a blob produced by the
  canvas encoder.
\<close>

record blob =
  blob_size :: nat
  blob_type :: string
  blob_data :: nat

record file_obj =
  file_name :: string
  file_type :: string
  file_size :: nat
  file_data :: nat

datatype payload = FileObject file_obj | BlobObject blob

text \<open>\<open>CONFIG\<close>, the fields the processing core reads.\<close>

definition CONFIG_maxWidth :: nat where "CONFIG_maxWidth = 750"
definition CONFIG_maxHeight :: nat where "CONFIG_maxHeight = 750"
definition CONFIG_maxSizeKB :: int where "CONFIG_maxSizeKB = 800"
definition CONFIG_maxSizeBytes :: int where "CONFIG_maxSizeBytes = 800 * 1024"
definition CONFIG_outputFormat :: string where "CONFIG_outputFormat = ''image/jpeg''"
definition CONFIG_outputExtension :: string where "CONFIG_outputExtension = ''.jpg''"

text \<open>The image information object built by \<open>ImageAnalyzer.analyze\<close>.\<close>

record image_info =
  info_file :: file_obj
  info_width :: int
  info_height :: int
  info_size :: int
  info_previewUrl :: string
  info_needsProcessing :: bool

text \<open>
  The user configuration \<open>{ format, maxSizeKB, extension }\<close>; each field may be
  absent.
\<close>

record userConfig =
  cfg_format :: "string option"
  cfg_maxSizeKB :: "int option"
  cfg_extension :: "string option"

text \<open>
  A decoded image element and a canvas holding a scaled drawing of it. The width and
  height of the canvas are the numbers assigned to them; a DOM canvas keeps an assigned
  integer from 0 to 2147483647 as it is, and what is proved about \<open>resize\<close> stays
  inside that range.
\<close>

record image =
  naturalWidth :: nat
  naturalHeight :: nat
  image_src :: string

record canvas =
  canvas_width :: nat
  canvas_height :: jsnum
  canvas_image :: image

text \<open>
  A processing result. The success objects and the failure object of the source have
  different fields; a field that an object lacks, or that holds \<open>null\<close> or
  \<open>undefined\<close>, is \<open>None\<close>.
\<close>

record result =
  originalFile :: file_obj
  processedBlob :: "payload option"
  finalWidth :: "jsnum option"
  finalHeight :: "jsnum option"
  finalSize :: "int option"
  wasProcessed :: bool
  outputFileName :: "string option"
  error :: "string option"

text \<open>
  What a \<open>catch\<close> can receive here. Reading \<open>.size\<close> of \<open>null\<close> throws a
  \<open>TypeError\<close>, which has a message. An image element that fails to load calls its
  \<open>onerror\<close> handler with a DOM \<open>Event\<close>; \<open>process\<close> installs \<open>reject\<close> itself as
  that handler, so the rejection value is the event, which has no \<open>message\<close>.
\<close>

datatype thrown = TypeError string | DomEvent

fun message :: "thrown \<Rightarrow> string option" where
  "message (TypeError m) = Some m"
| "message DomEvent = None"

definition null_size_error :: thrown where
  "null_size_error = TypeError ''Cannot read properties of null (reading size)''"

text \<open>
  The browser services the core calls: loading an image element from a URL
  (\<open>None\<close> when the element reports an error) and \<open>canvas.toBlob(callback, format,
  quality)\<close>, whose callback receives a blob, or \<open>null\<close> when the canvas cannot be
  encoded. The quality argument is \<open>None\<close> when the call passes none. Every call is
  recorded in an effect log.
\<close>

record browser =
  loadImage :: "string \<Rightarrow> image option"
  toBlob :: "canvas \<Rightarrow> string \<Rightarrow> real option \<Rightarrow> blob option"

datatype effect = LoadImage string | ToBlob canvas string "real option"

section \<open>ImageAnalyzer.needsProcessing\<close>

definition needsProcessing :: "image_info \<Rightarrow> bool" where
  "needsProcessing info \<longleftrightarrow>
     info_width info \<noteq> int CONFIG_maxWidth \<or> info_size info > CONFIG_maxSizeBytes"

section \<open>ImageProcessor\<close>

subsection \<open>resize\<close>

definition resize :: "image \<Rightarrow> nat \<Rightarrow> nat \<Rightarrow> canvas" where
  "resize img targetWidth maxHeight =
     (let width = naturalWidth img;
          height = naturalHeight img;
          ratio = js_div (real targetWidth) (real width);
          newWidth = targetWidth;
          newHeight = Math_round (js_mul (real height) ratio)
      in \<lparr>canvas_width = newWidth, canvas_height = newHeight, canvas_image = img\<rparr>)"

subsection \<open>compress\<close>

text \<open>The three variables of the quality search.\<close>

record search =
  minQuality :: real
  maxQuality :: real
  bestBlob :: blob

text \<open>
  The \<open>for\<close> loop of \<open>compress\<close>, from round \<open>i\<close> on. \<open>enc\<close> is
  \<open>canvas.toBlob\<close> at the given canvas and format. The result is the state after the
  last round, or the \<open>TypeError\<close> of reading \<open>blob.size\<close> when an encode yields
  \<open>null\<close>, together with the qualities encoded at, in order.
\<close>

function compress_loop ::
  "(real option \<Rightarrow> blob option) \<Rightarrow> int \<Rightarrow> nat \<Rightarrow> search \<Rightarrow> (thrown + search) \<times> real list"
where
  "compress_loop enc maxSizeBytes i s =
     (if i < 10 then
        (let midQuality = js_midpoint (minQuality s) (maxQuality s)
         in case enc (Some midQuality) of
              None \<Rightarrow> (Inl null_size_error, [midQuality])
            | Some b \<Rightarrow>
                (let s' = (if int (blob_size b) \<le> maxSizeBytes
                           then s\<lparr>bestBlob := b, minQuality := midQuality\<rparr>
                           else s\<lparr>maxQuality := midQuality\<rparr>);
                     rest = compress_loop enc maxSizeBytes (i + 1) s'
                 in (fst rest, midQuality # snd rest)))
      else (Inr s, []))"
  by pat_completeness auto
termination
  by (relation "measure (\<lambda>(enc, maxSizeBytes, i, s). 10 - i)") auto

text \<open>
  \<open>compress\<close>. For \<open>image/png\<close> the blob of one \<open>toBlob\<close> call without a quality
  is returned as it is (\<open>null\<close> included). Otherwise the blob encoded at quality 1 is
  read at once, so a \<open>null\<close> there throws; \<open>bestBlob\<close> is therefore never \<open>null\<close>
  after the loop, and the test \<open>!bestBlob || bestBlob.size > maxSizeBytes\<close> is the size
  comparison. The blob of the final encode is returned without being read.
\<close>

definition compress ::
  "browser \<Rightarrow> canvas \<Rightarrow> int \<Rightarrow> string \<Rightarrow> (thrown + blob option) \<times> effect list"
where
  "compress br cv maxSizeKB format =
     (let maxSizeBytes = maxSizeKB * 1024 in
      if format = ''image/png''
      then (Inr (toBlob br cv format None), [ToBlob cv format None])
      else
        (let minQ = dbl (1 / 10);
             maxQ = 1;
             first = ToBlob cv format (Some maxQ)
         in case toBlob br cv format (Some maxQ) of
              None \<Rightarrow> (Inl null_size_error, [first])
            | Some b0 \<Rightarrow>
                if int (blob_size b0) \<le> maxSizeBytes then (Inr (Some b0), [first])
                else
                  (let run = compress_loop (toBlob br cv format) maxSizeBytes 0
                               \<lparr>minQuality = minQ, maxQuality = maxQ, bestBlob = b0\<rparr>;
                       rounds = map (\<lambda>q. ToBlob cv format (Some q)) (snd run)
                   in case fst run of
                        Inl e \<Rightarrow> (Inl e, first # rounds)
                      | Inr s \<Rightarrow>
                          if int (blob_size (bestBlob s)) > maxSizeBytes
                          then (Inr (toBlob br cv format (Some (minQuality s))),
                                first # rounds @ [ToBlob cv format (Some (minQuality s))])
                          else (Inr (Some (bestBlob s)), first # rounds))))"

text \<open>
  The search in the words of the specification, for an encoder \<open>enc\<close> that always
  produces a blob. One round encodes at the midpoint of the two bounds; if the blob fits
  the budget it becomes the best blob and the lower bound moves up to the midpoint,
  otherwise the upper bound moves down to it. \<open>spec_rounds n\<close> runs \<open>n\<close> rounds and
  lists the qualities encoded at.
\<close>

definition spec_round :: "(real \<Rightarrow> blob) \<Rightarrow> int \<Rightarrow> search \<Rightarrow> search" where
  "spec_round enc maxSizeBytes s =
     (let mid = js_midpoint (minQuality s) (maxQuality s)
      in if int (blob_size (enc mid)) \<le> maxSizeBytes
         then s\<lparr>bestBlob := enc mid, minQuality := mid\<rparr>
         else s\<lparr>maxQuality := mid\<rparr>)"

fun spec_rounds :: "(real \<Rightarrow> blob) \<Rightarrow> int \<Rightarrow> nat \<Rightarrow> search \<Rightarrow> search \<times> real list" where
  "spec_rounds enc maxSizeBytes 0 s = (s, [])"
| "spec_rounds enc maxSizeBytes (Suc n) s =
     (let r = spec_rounds enc maxSizeBytes n (spec_round enc maxSizeBytes s)
      in (fst r, js_midpoint (minQuality s) (maxQuality s) # snd r))"

text \<open>
  The invariant of the search: both bounds are doubles, and they lie in order inside
  the interval \<open>[lo, hi]\<close> the search started from.
\<close>

definition bounds_ok :: "real \<Rightarrow> real \<Rightarrow> search \<Rightarrow> bool" where
  "bounds_ok lo hi s \<longleftrightarrow>
     dbl (minQuality s) = minQuality s \<and> dbl (maxQuality s) = maxQuality s \<and>
     2 powi (- 1021) \<le> lo \<and> lo \<le> minQuality s \<and> minQuality s \<le> maxQuality s \<and>
     maxQuality s \<le> hi"

subsection \<open>process\<close>

text \<open>The three \<open>userConfig.x || CONFIG.x\<close> defaults: an absent, empty or zero value
  falls back.\<close>

definition outputFormat_of :: "userConfig \<Rightarrow> string" where
  "outputFormat_of cfg =
     (case cfg_format cfg of None \<Rightarrow> CONFIG_outputFormat
      | Some f \<Rightarrow> or_string f CONFIG_outputFormat)"

definition maxSizeKB_of :: "userConfig \<Rightarrow> int" where
  "maxSizeKB_of cfg =
     (case cfg_maxSizeKB cfg of None \<Rightarrow> CONFIG_maxSizeKB
      | Some k \<Rightarrow> if k = 0 then CONFIG_maxSizeKB else k)"

definition outputExtension_of :: "userConfig \<Rightarrow> string" where
  "outputExtension_of cfg =
     (case cfg_extension cfg of None \<Rightarrow> CONFIG_outputExtension
      | Some e \<Rightarrow> or_string e CONFIG_outputExtension)"

definition baseName_of :: "string \<Rightarrow> string" where
  "baseName_of originalName =
     or_string (substring originalName 0 (lastIndexOf originalName CHR ''.'')) originalName"

text \<open>
  \<open>process\<close>. The skip path returns the file object itself. Otherwise the image is
  loaded (a failure rejects with the DOM event), drawn on a canvas by \<open>resize\<close> and
  encoded by \<open>compress\<close>; building the result reads \<open>blob.size\<close>, which throws when
  \<open>compress\<close> returned \<open>null\<close>.
\<close>

definition process ::
  "browser \<Rightarrow> image_info \<Rightarrow> userConfig \<Rightarrow> (thrown + result) \<times> effect list"
where
  "process br imageInfo cfg =
     (let outputFormat = outputFormat_of cfg;
          maxSizeKB = maxSizeKB_of cfg;
          outputExtension = outputExtension_of cfg;
          needsFormatConversion = (file_type (info_file imageInfo) \<noteq> outputFormat);
          needsSizeCompression = (info_size imageInfo > maxSizeKB * 1024)
      in if \<not> info_needsProcessing imageInfo \<and> \<not> needsFormatConversion
            \<and> \<not> needsSizeCompression
         then (Inr \<lparr>originalFile = info_file imageInfo,
                    processedBlob = Some (FileObject (info_file imageInfo)),
                    finalWidth = Some (Finite (of_int (info_width imageInfo))),
                    finalHeight = Some (Finite (of_int (info_height imageInfo))),
                    finalSize = Some (info_size imageInfo),
                    wasProcessed = False,
                    outputFileName = Some (file_name (info_file imageInfo)),
                    error = None\<rparr>, [])
         else
           (case loadImage br (info_previewUrl imageInfo) of
              None \<Rightarrow> (Inl DomEvent, [LoadImage (info_previewUrl imageInfo)])
            | Some img \<Rightarrow>
                (let cv = resize img CONFIG_maxWidth CONFIG_maxHeight;
                     enc = compress br cv maxSizeKB outputFormat;
                     effects = LoadImage (info_previewUrl imageInfo) # snd enc
                 in case fst enc of
                      Inl e \<Rightarrow> (Inl e, effects)
                    | Inr None \<Rightarrow> (Inl null_size_error, effects)
                    | Inr (Some b) \<Rightarrow>
                        (let originalName = file_name (info_file imageInfo);
                             baseName = baseName_of originalName;
                             outName = baseName @ outputExtension
                         in (Inr \<lparr>originalFile = info_file imageInfo,
                                   processedBlob = Some (BlobObject b),
                                   finalWidth = Some (Finite (real (canvas_width cv))),
                                   finalHeight = Some (canvas_height cv),
                                   finalSize = Some (int (blob_size b)),
                                   wasProcessed = True,
                                   outputFileName = Some outName,
                                   error = None\<rparr>, effects)))))"

section \<open>BatchProcessor.processAll\<close>

text \<open>
  One call of the progress callback: the object it is given, with the results array as
  it stands at the moment of the call.
\<close>

record progress =
  total :: nat
  completed :: nat
  current :: string
  results :: "result list"

text \<open>The state the loop threads: the results array, the progress calls made and the
  browser calls made.\<close>

record batch =
  batch_results :: "result list"
  batch_progress :: "progress list"
  batch_effects :: "effect list"

text \<open>The object pushed by the \<open>catch\<close> branch.\<close>

definition failure_result :: "image_info \<Rightarrow> thrown \<Rightarrow> result" where
  "failure_result imageInfo e =
     \<lparr>originalFile = info_file imageInfo, processedBlob = None, finalWidth = None,
      finalHeight = None, finalSize = None, wasProcessed = False, outputFileName = None,
      error = message e\<rparr>"

text \<open>What the \<open>try\<close> / \<open>catch\<close> statement pushes for one item.\<close>

definition pushed_result :: "browser \<Rightarrow> image_info \<Rightarrow> userConfig \<Rightarrow> result" where
  "pushed_result br imageInfo cfg =
     (case fst (process br imageInfo cfg) of
        Inr r \<Rightarrow> r
      | Inl e \<Rightarrow> failure_result imageInfo e)"

function processAll_loop ::
  "browser \<Rightarrow> image_info list \<Rightarrow> userConfig \<Rightarrow> nat \<Rightarrow> batch \<Rightarrow> batch"
where
  "processAll_loop br images cfg i st =
     (if i < length images then
        (let imageInfo = images ! i;
             before = \<lparr>total = length images, completed = i,
                       current = file_name (info_file imageInfo),
                       results = batch_results st\<rparr>;
             run = process br imageInfo cfg;
             pushed = batch_results st @ [pushed_result br imageInfo cfg];
             after = \<lparr>total = length images, completed = i + 1,
                      current = file_name (info_file imageInfo),
                      results = pushed\<rparr>
         in processAll_loop br images cfg (i + 1)
              \<lparr>batch_results = pushed,
               batch_progress = batch_progress st @ [before, after],
               batch_effects = batch_effects st @ snd run\<rparr>)
      else st)"
  by pat_completeness auto
termination
  by (relation "measure (\<lambda>(br, images, cfg, i, st). length images - i)") auto

definition processAll :: "browser \<Rightarrow> image_info list \<Rightarrow> userConfig \<Rightarrow> batch" where
  "processAll br images cfg =
     processAll_loop br images cfg 0
       \<lparr>batch_results = [], batch_progress = [], batch_effects = []\<rparr>"

section \<open>ZipExporter\<close>

text \<open>
  The archive object before it is serialised: folders by name, and in each folder the
  files by name. \<open>folder.file(name, content)\<close> stores under the name, replacing what
  the name held; \<open>zip.folder(name)\<close> does the same with a new folder (the behaviour of
  the archive object the repository's tests install).
\<close>

type_synonym zip_folder = "(string \<times> payload) list"
type_synonym zip = "(string \<times> zip_folder) list"

definition fileName_of :: "result \<Rightarrow> string" where
  "fileName_of r =
     (case outputFileName r of None \<Rightarrow> file_name (originalFile r)
      | Some n \<Rightarrow> or_string n (file_name (originalFile r)))"

fun add_results :: "result list \<Rightarrow> zip_folder \<Rightarrow> zip_folder" where
  "add_results [] folder = folder"
| "add_results (r # rs) folder =
     add_results rs
       (case processedBlob r of None \<Rightarrow> folder
        | Some b \<Rightarrow> AList.update (fileName_of r) b folder)"

definition createZip :: "result list \<Rightarrow> string \<Rightarrow> zip" where
  "createZip rs folderName = AList.update folderName (add_results rs []) []"

fun add_folders :: "(string \<times> result list) list \<Rightarrow> zip \<Rightarrow> zip" where
  "add_folders [] z = z"
| "add_folders ((folderName, rs) # groups) z =
     add_folders groups (AList.update folderName (add_results rs []) z)"

definition createZipWithFolders :: "(string \<times> result list) list \<Rightarrow> zip" where
  "createZipWithFolders resultsByFolder = add_folders resultsByFolder []"

section \<open>Example inputs\<close>

text \<open>
  Concrete inputs on which the theorems below are instantiated: a browser that loads
  the URL \<open>blob:ok\<close> as a 1500 x 1000 image and fails on any other URL, with an
  encoder that always produces 1000 bytes; a browser whose encoder output grows with the
  quality; image information objects over them; a tall image, and two images whose
  scaled height falls exactly halfway between two integers.
\<close>

definition example_image :: image where
  "example_image = \<lparr>naturalWidth = 1500, naturalHeight = 1000, image_src = ''blob:ok''\<rparr>"

definition example_canvas :: canvas where
  "example_canvas =
     \<lparr>canvas_width = 750, canvas_height = Finite 500, canvas_image = example_image\<rparr>"

definition example_browser :: browser where
  "example_browser =
     \<lparr>loadImage = (\<lambda>url. if url = ''blob:ok'' then Some example_image else None),
      toBlob = (\<lambda>cv fmt q. Some \<lparr>blob_size = 1000, blob_type = fmt, blob_data = 7\<rparr>)\<rparr>"

definition scaling_blob :: "string \<Rightarrow> real \<Rightarrow> blob" where
  "scaling_blob fmt x =
     \<lparr>blob_size = nat \<lfloor>2000000 * x\<rfloor>, blob_type = fmt, blob_data = 7\<rparr>"

definition scaling_browser :: browser where
  "scaling_browser =
     \<lparr>loadImage = (\<lambda>url. Some example_image),
      toBlob = (\<lambda>cv fmt q. Some (scaling_blob fmt (case q of None \<Rightarrow> 1 | Some x \<Rightarrow> x)))\<rparr>"

definition example_file :: "string \<Rightarrow> file_obj" where
  "example_file name =
     \<lparr>file_name = name, file_type = ''image/png'', file_size = 900000, file_data = 1\<rparr>"

definition example_info :: "string \<Rightarrow> string \<Rightarrow> image_info" where
  "example_info name url =
     \<lparr>info_file = example_file name, info_width = 1500, info_height = 1000,
      info_size = 900000, info_previewUrl = url, info_needsProcessing = True\<rparr>"

definition small_file :: file_obj where
  "small_file =
     \<lparr>file_name = ''ready.jpg'', file_type = ''image/jpeg'', file_size = 4096, file_data = 2\<rparr>"

definition small_info :: image_info where
  "small_info =
     \<lparr>info_file = small_file, info_width = 750, info_height = 300, info_size = 4096,
      info_previewUrl = ''blob:ready'', info_needsProcessing = False\<rparr>"

definition tall_image :: image where
  "tall_image = \<lparr>naturalWidth = 500, naturalHeight = 1500, image_src = ''blob:tall''\<rparr>"

definition half_image :: image where
  "half_image = \<lparr>naturalWidth = 2000, naturalHeight = 1500, image_src = ''blob:half''\<rparr>"

definition tie_image :: image where
  "tie_image = \<lparr>naturalWidth = 36, naturalHeight = 393, image_src = ''blob:tie''\<rparr>"

definition default_config :: userConfig where
  "default_config = \<lparr>cfg_format = None, cfg_maxSizeKB = None, cfg_extension = None\<rparr>"

definition example_blob :: blob where
  "example_blob = \<lparr>blob_size = 1000, blob_type = ''image/jpeg'', blob_data = 7\<rparr>"

definition example_result :: "string \<Rightarrow> result" where
  "example_result name =
     \<lparr>originalFile = example_file name, processedBlob = Some (BlobObject example_blob),
      finalWidth = Some (Finite 750), finalHeight = Some (Finite 500),
      finalSize = Some 1000, wasProcessed = True,
      outputFileName = Some (baseName_of name @ ''.jpg''), error = None\<rparr>"

section \<open>Properties of rounding\<close>

lemma ilog2_bounds:
  assumes "0 < x"
  shows "2 powi (ilog2 x) \<le> x \<and> x < 2 powi (ilog2 x + 1)"
proof (cases "1 \<le> x")
  case True
  define n where "n = nat \<lfloor>x\<rfloor>"
  define L where "L = floorlog 2 n"
  from True have n1: "1 \<le> n" by (simp add: n_def le_nat_iff le_floor_iff)
  then have npos: "0 < n" by simp
  from floorlog_bounds [OF npos, of 2]
  have b: "2 ^ (L - 1) \<le> n" "n < 2 ^ L" by (simp_all add: L_def)
  have Lpos: "1 \<le> L"
    using b(2) n1 by (cases L) simp_all
  have e: "ilog2 x = int (L - 1)"
    using True Lpos by (simp add: ilog2_def n_def L_def)
  have nx: "real n \<le> x" "x < real n + 1"
    using True by (simp_all add: n_def)
  have "real (2 ^ (L - 1)) \<le> real n"
    using b(1) by (simp only: of_nat_le_iff)
  then have "(2::real) ^ (L - 1) \<le> real n"
    by simp
  moreover have "2 powi (ilog2 x) = (2::real) ^ (L - 1)"
    by (simp only: e power_int_of_nat)
  ultimately have lo: "2 powi (ilog2 x) \<le> x"
    using nx(1) by linarith
  have "Suc n \<le> 2 ^ L"
    using b(2) by simp
  then have "real (Suc n) \<le> real (2 ^ L)"
    by (simp only: of_nat_le_iff)
  then have h2: "real n + 1 \<le> 2 ^ L"
    by simp
  have "ilog2 x + 1 = int L"
    using Lpos by (simp add: e)
  then have "2 powi (ilog2 x + 1) = (2::real) ^ L"
    by (simp only: power_int_of_nat)
  with h2 have hi: "x < 2 powi (ilog2 x + 1)"
    using nx(2) by linarith
  from lo hi show ?thesis by simp
next
  case False
  define y where "y = 1 / x"
  define m where "m = \<lceil>y\<rceil>"
  define k where "k = floorlog 2 (nat (m - 1))"
  from False assms have y1: "1 < y" by (simp add: y_def)
  then have m2: "2 \<le> m" by (simp add: m_def le_ceiling_iff)
  then have npos: "0 < nat (m - 1)" by simp
  from floorlog_bounds [OF npos, of 2]
  have b: "2 ^ (k - 1) \<le> nat (m - 1)" "nat (m - 1) < 2 ^ k" by (simp_all add: k_def)
  have kpos: "1 \<le> k"
    using b(2) npos by (cases k) simp_all
  have e: "ilog2 x = - int k"
    using False by (simp add: ilog2_def k_def m_def y_def)
  have my: "real_of_int m - 1 < y" "y \<le> real_of_int m"
    by (simp_all add: m_def) linarith
  have "int (nat (m - 1)) < int (2 ^ k)"
    using b(2) by (simp only: of_nat_less_iff)
  then have "m - 1 < 2 ^ k"
    using m2 by simp
  then have "m \<le> 2 ^ k" by simp
  then have "real_of_int m \<le> real_of_int (2 ^ k)"
    by (simp only: of_int_le_iff)
  then have "real_of_int m \<le> 2 ^ k"
    by simp
  with my(2) have yk: "y \<le> 2 ^ k" by linarith
  have "int (2 ^ (k - 1)) \<le> int (nat (m - 1))"
    using b(1) by (simp only: of_nat_le_iff)
  then have "(2::int) ^ (k - 1) \<le> m - 1"
    using m2 by simp
  then have "real_of_int (2 ^ (k - 1)) \<le> real_of_int (m - 1)"
    by (simp only: of_int_le_iff)
  then have "(2::real) ^ (k - 1) \<le> real_of_int m - 1"
    by simp
  with my(1) have yk': "2 ^ (k - 1) < y" by linarith
  have xy: "x = 1 / y" using assms by (simp add: y_def)
  have ypos: "0 < y" using y1 by simp
  have p1: "2 powi (ilog2 x) = 1 / (2::real) ^ k"
    by (simp only: e power_int_minus_divide power_int_of_nat)
  have "1 / (2::real) ^ k \<le> 1 / y"
    using yk ypos by (intro divide_left_mono) simp_all
  with p1 have lo: "2 powi (ilog2 x) \<le> x"
    by (simp only: xy)
  have "ilog2 x + 1 = - int (k - 1)"
    using kpos by (simp add: e)
  then have p2: "2 powi (ilog2 x + 1) = 1 / (2::real) ^ (k - 1)"
    by (simp only: power_int_minus_divide power_int_of_nat)
  have "1 / y < 1 / (2::real) ^ (k - 1)"
    using yk' ypos by (intro divide_strict_left_mono) simp_all
  with p2 have hi: "x < 2 powi (ilog2 x + 1)"
    by (simp only: xy)
  from lo hi show ?thesis by simp
qed

lemma ilog2_unique:
  assumes "2 powi k \<le> x" and "x < 2 powi (k + 1)"
  shows "ilog2 x = k"
proof -
  have "(0::real) < 2 powi k" by simp
  with assms(1) have xpos: "0 < x" by linarith
  note b = ilog2_bounds [OF xpos]
  have "\<not> k < ilog2 x"
  proof
    assume "k < ilog2 x"
    then have "k + 1 \<le> ilog2 x" by simp
    then have "(2::real) powi (k + 1) \<le> 2 powi (ilog2 x)"
      by (intro power_int_increasing) simp_all
    with b assms show False by linarith
  qed
  moreover have "\<not> ilog2 x < k"
  proof
    assume "ilog2 x < k"
    then have "ilog2 x + 1 \<le> k" by simp
    then have "(2::real) powi (ilog2 x + 1) \<le> 2 powi k"
      by (intro power_int_increasing) simp_all
    with b assms show False by linarith
  qed
  ultimately show ?thesis by simp
qed

lemma ilog2_mono:
  assumes "0 < x" and "x \<le> y"
  shows "ilog2 x \<le> ilog2 y"
proof (rule ccontr)
  assume "\<not> ilog2 x \<le> ilog2 y"
  then have "ilog2 y + 1 \<le> ilog2 x" by simp
  then have "(2::real) powi (ilog2 y + 1) \<le> 2 powi (ilog2 x)"
    by (intro power_int_increasing) simp_all
  moreover from assms have "0 < y" by simp
  ultimately show False
    using ilog2_bounds [OF assms(1)] ilog2_bounds [OF \<open>0 < y\<close>] assms(2) by linarith
qed

lemma rne_of_int: "rne (of_int n) = n"
  by (simp add: rne_def)

lemma rne_error: "\<bar>real_of_int (rne y) - y\<bar> \<le> 1 / 2"
proof -
  have "real_of_int \<lfloor>y\<rfloor> \<le> y" "y < real_of_int \<lfloor>y\<rfloor> + 1"
    by linarith+
  then show ?thesis
    by (auto simp: rne_def Let_def)
qed

lemma rne_mono:
  assumes "y \<le> z"
  shows "rne y \<le> rne z"
proof (cases "\<lfloor>y\<rfloor> = \<lfloor>z\<rfloor>")
  case True
  with assms show ?thesis
    by (auto simp: rne_def Let_def)
next
  case False
  with assms have "\<lfloor>y\<rfloor> + 1 \<le> \<lfloor>z\<rfloor>"
    using floor_mono [OF assms] by linarith
  moreover have "rne y \<le> \<lfloor>y\<rfloor> + 1"
    by (simp add: rne_def Let_def)
  moreover have "\<lfloor>z\<rfloor> \<le> rne z"
    by (simp add: rne_def Let_def)
  ultimately show ?thesis by linarith
qed

lemma rne_lower: "real_of_int n \<le> y \<Longrightarrow> n \<le> rne y"
  using rne_mono [of "real_of_int n" y] by (simp add: rne_of_int)

lemma rne_upper: "y \<le> real_of_int n \<Longrightarrow> rne y \<le> n"
  using rne_mono [of y "real_of_int n"] by (simp add: rne_of_int)

text \<open>A positive \<open>x\<close> in the binade \<open>k\<close>, in the normal range.\<close>

lemma ulp_scale: "(2::real) powi k = 2 powi (k - 52) * 2 ^ 52"
proof -
  have "(2::real) powi k = 2 powi ((k - 52) + 52)" by simp
  also have "\<dots> = 2 powi (k - 52) * 2 powi 52"
    by (subst power_int_add) simp_all
  finally show ?thesis by simp
qed

lemma dbl_normal:
  assumes "2 powi k \<le> x" and "x < 2 powi (k + 1)" and "- 1022 \<le> k"
  shows "dbl x = 2 powi (k - 52) * real_of_int (rne (x / 2 powi (k - 52)))"
proof -
  have "(0::real) < 2 powi k" by simp
  with assms(1) have xpos: "0 < x" by linarith
  have "ilog2 \<bar>x\<bar> = k"
    using ilog2_unique [OF assms(1,2)] xpos by simp
  with xpos assms(3) show ?thesis
    by (simp add: dbl_def Let_def max_def)
qed

lemma significand_bounds:
  fixes x :: real
  assumes "2 powi k \<le> x" and "x < 2 powi (k + 1)"
  shows "2 ^ 52 \<le> x / 2 powi (k - 52)" and "x / 2 powi (k - 52) < 2 ^ 53"
proof -
  have u: "(0::real) < 2 powi (k - 52)" by simp
  have "2 powi (k - 52) * 2 ^ 52 \<le> x"
    using assms(1) ulp_scale [of k] by simp
  then show "2 ^ 52 \<le> x / 2 powi (k - 52)"
    using u by (simp add: field_simps)
  have "x < 2 powi (k + 1 - 52) * 2 ^ 52"
    using assms(2) ulp_scale [of "k + 1"] by simp
  also have "2 powi (k + 1 - 52) = (2::real) powi (k - 52) * 2"
    using power_int_add_1 [of "2::real" "k - 52"] by (simp add: algebra_simps)
  finally have "x < 2 powi (k - 52) * 2 ^ 53" by simp
  then show "x / 2 powi (k - 52) < 2 ^ 53"
    using u by (simp add: field_simps)
qed

lemma rne_significand:
  assumes "2 powi k \<le> x" and "x < 2 powi (k + 1)"
  shows "2 ^ 52 \<le> rne (x / 2 powi (k - 52))" and "rne (x / 2 powi (k - 52)) \<le> 2 ^ 53"
proof -
  note b = significand_bounds [OF assms]
  have "real_of_int (2 ^ 52) \<le> x / 2 powi (k - 52)"
    using b(1) by simp
  then show "2 ^ 52 \<le> rne (x / 2 powi (k - 52))"
    by (rule rne_lower)
  have "x / 2 powi (k - 52) \<le> real_of_int (2 ^ 53)"
    using b(2) by simp
  then show "rne (x / 2 powi (k - 52)) \<le> 2 ^ 53"
    by (rule rne_upper)
qed

lemma dbl_binade:
  assumes "2 powi k \<le> x" and "x < 2 powi (k + 1)" and "- 1022 \<le> k"
  shows "2 powi k \<le> dbl x" and "dbl x \<le> 2 powi (k + 1)"
proof -
  let ?u = "(2::real) powi (k - 52)"
  let ?m = "rne (x / ?u)"
  note m = rne_significand [OF assms(1,2)]
  have u: "0 < ?u" by simp
  have d: "dbl x = ?u * real_of_int ?m"
    by (rule dbl_normal [OF assms])
  have "real_of_int (2 ^ 52) \<le> real_of_int ?m"
    using m(1) by (simp only: of_int_le_iff)
  then have "?u * 2 ^ 52 \<le> ?u * real_of_int ?m"
    using u by simp
  then show "2 powi k \<le> dbl x"
    using ulp_scale [of k] d by simp
  have "real_of_int ?m \<le> real_of_int (2 ^ 53)"
    using m(2) by (simp only: of_int_le_iff)
  then have "?u * real_of_int ?m \<le> ?u * 2 ^ 53"
    using u by simp
  moreover have "(2::real) powi (k + 1) = ?u * 2 ^ 53"
  proof -
    have "(2::real) powi (k + 1) = 2 powi (k + 1 - 52) * 2 ^ 52"
      by (rule ulp_scale)
    also have "2 powi (k + 1 - 52) = ?u * 2"
      using power_int_add_1 [of "2::real" "k - 52"] by (simp add: algebra_simps)
    finally show ?thesis by simp
  qed
  ultimately show "dbl x \<le> 2 powi (k + 1)"
    using d by simp
qed

lemma dbl_error:
  assumes "2 powi k \<le> x" and "x < 2 powi (k + 1)" and "- 1022 \<le> k"
  shows "\<bar>dbl x - x\<bar> \<le> 2 powi (k - 52) / 2"
proof -
  let ?u = "(2::real) powi (k - 52)"
  let ?y = "x / ?u"
  have u: "0 < ?u" by simp
  have d: "dbl x = ?u * real_of_int (rne ?y)"
    by (rule dbl_normal [OF assms])
  have "dbl x - x = ?u * (real_of_int (rne ?y) - ?y)"
    using u by (simp add: d algebra_simps)
  then have "\<bar>dbl x - x\<bar> = ?u * \<bar>real_of_int (rne ?y) - ?y\<bar>"
    using u by (simp add: abs_mult)
  also have "\<dots> \<le> ?u * (1 / 2)"
    using u rne_error [of ?y] by (intro mult_left_mono) simp_all
  finally show ?thesis by simp
qed

lemma binade_of:
  assumes "2 powi (- 1022) \<le> x"
  shows "2 powi (ilog2 x) \<le> x" and "x < 2 powi (ilog2 x + 1)" and "- 1022 \<le> ilog2 x"
proof -
  have "(0::real) < 2 powi (- 1022)" by simp
  with assms have xpos: "0 < x" by linarith
  from ilog2_bounds [OF xpos]
  show "2 powi (ilog2 x) \<le> x" and "x < 2 powi (ilog2 x + 1)" by simp_all
  have "ilog2 (2 powi (- 1022)) = - 1022"
    by (rule ilog2_unique) simp_all
  moreover have "ilog2 (2 powi (- 1022)) \<le> ilog2 x"
    by (rule ilog2_mono) (use assms in simp_all)
  ultimately show "- 1022 \<le> ilog2 x" by simp
qed

lemma dbl_relative_error:
  assumes "2 powi (- 1022) \<le> x"
  shows "\<bar>dbl x - x\<bar> \<le> x / 2 ^ 53"
proof -
  note b = binade_of [OF assms]
  let ?k = "ilog2 x"
  have "\<bar>dbl x - x\<bar> \<le> 2 powi (?k - 52) / 2"
    by (rule dbl_error [OF b])
  also have "2 powi (?k - 52) / 2 = (2::real) powi ?k / 2 ^ 53"
    using ulp_scale [of ?k] by simp
  also have "\<dots> \<le> x / 2 ^ 53"
    using b(1) by (simp add: divide_right_mono)
  finally show ?thesis .
qed

lemma ulp_next: "(2::real) powi (k - 51) = 2 powi (k - 52) * 2"
  using power_int_add_1 [of "2::real" "k - 52"] by (simp add: algebra_simps)

lemma dbl_mono:
  assumes "2 powi (- 1022) \<le> x" and "x \<le> y"
  shows "dbl x \<le> dbl y"
proof -
  from assms have ny: "2 powi (- 1022) \<le> y" by linarith
  note bx = binade_of [OF assms(1)]
  note bY = binade_of [OF ny]
  have "(0::real) < 2 powi (- 1022)" by simp
  with assms(1) have xpos: "0 < x" by linarith
  have le: "ilog2 x \<le> ilog2 y"
    by (rule ilog2_mono [OF xpos assms(2)])
  show ?thesis
  proof (cases "ilog2 x = ilog2 y")
    case True
    let ?u = "(2::real) powi (ilog2 y - 52)"
    have u: "0 < ?u" by simp
    have dx: "dbl x = ?u * real_of_int (rne (x / ?u))"
      using dbl_normal [OF bx] True by simp
    have dy: "dbl y = ?u * real_of_int (rne (y / ?u))"
      using dbl_normal [OF bY] by simp
    have "x / ?u \<le> y / ?u"
      using assms(2) u by (simp add: divide_right_mono)
    then have "rne (x / ?u) \<le> rne (y / ?u)"
      by (rule rne_mono)
    then have "real_of_int (rne (x / ?u)) \<le> real_of_int (rne (y / ?u))"
      by (simp only: of_int_le_iff)
    then show ?thesis
      using u by (simp add: dx dy)
  next
    case False
    with le have "ilog2 x + 1 \<le> ilog2 y" by simp
    then have "(2::real) powi (ilog2 x + 1) \<le> 2 powi (ilog2 y)"
      by (intro power_int_increasing) simp_all
    with dbl_binade(2) [OF bx] dbl_binade(1) [OF bY] show ?thesis
      by linarith
  qed
qed

lemma dbl_double:
  assumes "2 powi (- 1022) \<le> x"
  shows "dbl (2 * x) = 2 * dbl x"
proof -
  note b = binade_of [OF assms]
  let ?k = "ilog2 x"
  let ?u = "(2::real) powi (?k - 52)"
  have u: "0 < ?u" by simp
  have p: "(2::real) powi (?k + 1) = 2 powi ?k * 2"
    by (rule power_int_add_1) simp
  have p': "(2::real) powi (?k + 1 + 1) = 2 powi (?k + 1) * 2"
    by (rule power_int_add_1) simp
  have b2: "2 powi (?k + 1) \<le> 2 * x" "2 * x < 2 powi (?k + 1 + 1)" "- 1022 \<le> ?k + 1"
    using b p p' by simp_all
  have e: "?k + 1 - 52 = ?k - 51" by simp
  have r: "2 * x / (?u * 2) = x / ?u"
    using u by simp
  have "dbl (2 * x) = 2 powi (?k - 51) * real_of_int (rne (2 * x / 2 powi (?k - 51)))"
    using dbl_normal [OF b2] by (simp only: e)
  also have "\<dots> = (?u * 2) * real_of_int (rne (2 * x / (?u * 2)))"
    by (simp only: ulp_next)
  also have "\<dots> = (?u * 2) * real_of_int (rne (x / ?u))"
    by (simp only: r)
  also have "\<dots> = 2 * dbl x"
    by (simp add: dbl_normal [OF b])
  finally show ?thesis .
qed

lemma dbl_half:
  assumes "2 powi (- 1021) \<le> x"
  shows "dbl (x / 2) = dbl x / 2"
proof -
  have "(2::real) powi (- 1021) = 2 powi (- 1022) * 2"
    using power_int_add_1 [of "2::real" "- 1022"] by simp
  with assms have "2 powi (- 1022) \<le> x / 2" by simp
  from dbl_double [OF this] show ?thesis by simp
qed

lemma dbl_idem:
  assumes "2 powi (- 1022) \<le> x"
  shows "dbl (dbl x) = dbl x"
proof -
  note b = binade_of [OF assms]
  let ?k = "ilog2 x"
  let ?u = "(2::real) powi (?k - 52)"
  let ?m = "rne (x / ?u)"
  have u: "0 < ?u" by simp
  have d: "dbl x = ?u * real_of_int ?m"
    by (rule dbl_normal [OF b])
  note m = rne_significand [OF b(1,2)]
  show ?thesis
  proof (cases "?m = 2 ^ 53")
    case True
    have e: "?k + 1 - 52 = ?k - 51" by simp
    have "(2::real) powi (?k + 1) = 2 powi (?k - 51) * 2 ^ 52"
      using ulp_scale [of "?k + 1"] by (simp only: e)
    also have "\<dots> = (?u * 2) * 2 ^ 52"
      by (simp only: ulp_next)
    finally have sc: "(2::real) powi (?k + 1) = ?u * 2 ^ 53" by simp
    have top: "dbl x = 2 powi (?k + 1)"
      by (simp add: d True sc)
    have p': "(2::real) powi (?k + 1 + 1) = 2 powi (?k + 1) * 2"
      by (rule power_int_add_1) simp
    have b2: "2 powi (?k + 1) \<le> dbl x" "dbl x < 2 powi (?k + 1 + 1)" "- 1022 \<le> ?k + 1"
      using b(3) top p' by simp_all
    have "dbl x / (?u * 2) = real_of_int (2 ^ 52)"
      using u by (simp add: d True)
    then have "rne (dbl x / (?u * 2)) = 2 ^ 52"
      by (simp only: rne_of_int)
    moreover have "dbl (dbl x) = (?u * 2) * real_of_int (rne (dbl x / (?u * 2)))"
      using dbl_normal [OF b2] by (simp only: e ulp_next)
    ultimately have "dbl (dbl x) = (?u * 2) * 2 ^ 52"
      by simp
    then show ?thesis
      by (simp add: top sc)
  next
    case False
    with m(2) have "?m < 2 ^ 53" by simp
    then have "real_of_int ?m < real_of_int (2 ^ 53)"
      by (simp only: of_int_less_iff)
    then have "?u * real_of_int ?m < ?u * 2 ^ 53"
      using u by simp
    moreover have "(2::real) powi (?k + 1) = ?u * 2 ^ 53"
    proof -
      have e: "?k + 1 - 52 = ?k - 51" by simp
      have "(2::real) powi (?k + 1) = 2 powi (?k - 51) * 2 ^ 52"
        using ulp_scale [of "?k + 1"] by (simp only: e)
      also have "\<dots> = (?u * 2) * 2 ^ 52"
        by (simp only: ulp_next)
      finally show ?thesis by simp
    qed
    ultimately have lt: "dbl x < 2 powi (?k + 1)"
      using d by simp
    have ge: "2 powi ?k \<le> dbl x"
      by (rule dbl_binade(1) [OF b])
    have "dbl x / ?u = real_of_int ?m"
      using u by (simp add: d)
    then have "rne (dbl x / ?u) = ?m"
      by (simp only: rne_of_int)
    then show ?thesis
      using dbl_normal [OF ge lt b(3)] d by simp
  qed
qed

text \<open>The midpoint of two doubles lies between them and is a double.\<close>

lemma js_midpoint_between:
  assumes lo: "dbl a = a" and hi: "dbl b = b"
    and n: "2 powi (- 1021) \<le> a" and le: "a \<le> b"
  shows "a \<le> js_midpoint a b" and "js_midpoint a b \<le> b"
    and "dbl (js_midpoint a b) = js_midpoint a b"
proof -
  have s: "(2::real) powi (- 1021) = 2 powi (- 1022) * 2"
    using power_int_add_1 [of "2::real" "- 1022"] by simp
  have pos: "(0::real) < 2 powi (- 1022)" by simp
  have na: "2 powi (- 1022) \<le> a" using n s pos by linarith
  have nb: "2 powi (- 1022) \<le> b" using na le by linarith
  have n2a: "2 powi (- 1022) \<le> 2 * a" using na pos by linarith
  have nab: "2 powi (- 1022) \<le> a + b" using na nb pos by linarith
  have "dbl (2 * a) \<le> dbl (a + b)"
    by (rule dbl_mono [OF n2a]) (use le in simp)
  then have l: "2 * a \<le> dbl (a + b)"
    by (simp add: dbl_double [OF na] lo)
  have "dbl (a + b) \<le> dbl (2 * b)"
    by (rule dbl_mono [OF nab]) (use le in simp)
  then have u: "dbl (a + b) \<le> 2 * b"
    by (simp add: dbl_double [OF nb] hi)
  have "2 powi (- 1021) \<le> dbl (a + b)"
    using l n s pos by linarith
  from dbl_half [OF this]
  have m: "js_midpoint a b = dbl (a + b) / 2"
    by (simp add: js_midpoint_def dbl_idem [OF nab])
  show "a \<le> js_midpoint a b" using l by (simp add: m)
  show "js_midpoint a b \<le> b" using u by (simp add: m)
  have "dbl (js_midpoint a b) = dbl (dbl (a + b) / 2)"
    by (simp only: m)
  also have "\<dots> = js_midpoint a b"
    by (simp only: js_midpoint_def)
  finally show "dbl (js_midpoint a b) = js_midpoint a b" .
qed

section \<open>Evaluation of the example inputs\<close>

lemmas dbl_eval = dbl_def ilog2_def compute_floorlog rne_def js_number_def js_div_def Let_def

lemma resize_example: "resize example_image 750 750 = example_canvas"
  by (simp add: resize_def example_image_def example_canvas_def dbl_eval)

lemmas process_eval = process_def example_browser_def example_info_def example_file_def
  default_config_def outputFormat_of_def maxSizeKB_of_def outputExtension_of_def
  CONFIG_outputFormat_def CONFIG_maxSizeKB_def CONFIG_outputExtension_def CONFIG_maxWidth_def
  CONFIG_maxHeight_def resize_example compress_def Let_def baseName_of_def substring_def
  or_string_def example_blob_def example_result_def example_canvas_def

lemma process_example_ok:
  "process example_browser (example_info ''photo.png'' ''blob:ok'') default_config =
     (Inr (example_result ''photo.png''),
      [LoadImage ''blob:ok'', ToBlob example_canvas ''image/jpeg'' (Some 1)])"
  by (simp add: process_eval)

lemma process_example_broken:
  "process example_browser (example_info ''photo.png'' ''blob:broken'') default_config =
     (Inl DomEvent, [LoadImage ''blob:broken''])"
  by (simp add: process_eval)

section \<open>needsProcessing\<close>

text \<open>
  Claim C5. For every width \<open>w\<close> and byte size \<open>s\<close>, \<open>needsProcessing\<close> of an
  information object with that width and size is true exactly when \<open>w\<close> differs from
  750 or \<open>s\<close> exceeds \<open>800 * 1024\<close>. A width below or above 750 therefore makes it
  true, and width 750 with size exactly \<open>800 * 1024\<close> makes it false.
\<close>

theorem needsProcessing_iff:
  "needsProcessing info \<longleftrightarrow> info_width info \<noteq> 750 \<or> info_size info > 800 * 1024"
  by (simp add: needsProcessing_def CONFIG_maxWidth_def CONFIG_maxSizeBytes_def)

theorem needsProcessing_iff_witness:
  "needsProcessing (example_info ''photo.png'' ''blob:ok'')
   \<and> info_width (example_info ''photo.png'' ''blob:ok'') = 1500
   \<and> info_size (example_info ''photo.png'' ''blob:ok'') = 900000"
  using needsProcessing_iff [of "example_info ''photo.png'' ''blob:ok''"]
  by (simp add: example_info_def)

lemma needsProcessing_width_mismatch:
  "info_width info < 750 \<or> 750 < info_width info \<Longrightarrow> needsProcessing info"
  by (auto simp: needsProcessing_def CONFIG_maxWidth_def)

lemma needsProcessing_boundary:
  "info_width info = 750 \<Longrightarrow> info_size info = 800 * 1024 \<Longrightarrow> \<not> needsProcessing info"
  by (simp add: needsProcessing_def CONFIG_maxWidth_def CONFIG_maxSizeBytes_def)

section \<open>The skip path of process\<close>

text \<open>
  Claim C7. When the \<open>needsProcessing\<close> flag of an item is false, its declared type is
  the configured output format and its size is at most \<open>maxSizeKB * 1024\<close>, \<open>process\<close>
  loads no image and encodes nothing (its effect log is empty) and returns the original
  file object as \<open>processedBlob\<close>, with \<open>wasProcessed = false\<close> and the original
  width, height, size and file name.
\<close>

theorem process_skip:
  assumes "\<not> info_needsProcessing imageInfo"
    and "file_type (info_file imageInfo) = outputFormat_of cfg"
    and "info_size imageInfo \<le> maxSizeKB_of cfg * 1024"
  shows "process br imageInfo cfg =
     (Inr \<lparr>originalFile = info_file imageInfo,
           processedBlob = Some (FileObject (info_file imageInfo)),
           finalWidth = Some (Finite (of_int (info_width imageInfo))),
           finalHeight = Some (Finite (of_int (info_height imageInfo))),
           finalSize = Some (info_size imageInfo),
           wasProcessed = False,
           outputFileName = Some (file_name (info_file imageInfo)),
           error = None\<rparr>, [])"
  using assms by (simp add: process_def Let_def)

theorem process_skip_witness:
  "\<not> info_needsProcessing small_info
   \<and> file_type (info_file small_info) = outputFormat_of default_config
   \<and> info_size small_info \<le> maxSizeKB_of default_config * 1024
   \<and> process example_browser small_info default_config =
     (Inr \<lparr>originalFile = small_file,
           processedBlob = Some (FileObject small_file),
           finalWidth = Some (Finite 750),
           finalHeight = Some (Finite 300),
           finalSize = Some 4096,
           wasProcessed = False,
           outputFileName = Some ''ready.jpg'',
           error = None\<rparr>, [])"
proof -
  have h1: "\<not> info_needsProcessing small_info"
    and h2: "file_type (info_file small_info) = outputFormat_of default_config"
    and h3: "info_size small_info \<le> maxSizeKB_of default_config * 1024"
    by (simp_all add: small_info_def small_file_def default_config_def outputFormat_of_def
        maxSizeKB_of_def CONFIG_outputFormat_def CONFIG_maxSizeKB_def)
  from process_skip [OF h1 h2 h3, of example_browser] h1 h2 h3
  show ?thesis by (simp add: small_info_def small_file_def)
qed

section \<open>The lossless branch of compress\<close>

text \<open>
  Claim C8. For the format \<open>image/png\<close>, \<open>compress\<close> makes one call of \<open>toBlob\<close>,
  without a quality argument, and returns what that call produced. No search runs, and
  the result does not mention the budget \<open>maxSizeKB\<close> or any quality: it is the same for
  every budget, and may exceed it.
\<close>

theorem compress_png:
  "compress br cv maxSizeKB ''image/png'' =
     (Inr (toBlob br cv ''image/png'' None), [ToBlob cv ''image/png'' None])"
  by (simp add: compress_def)

lemma compress_png_over_budget:
  "compress scaling_browser example_canvas 800 ''image/png'' =
     (Inr (Some \<lparr>blob_size = 2000000, blob_type = ''image/png'', blob_data = 7\<rparr>),
      [ToBlob example_canvas ''image/png'' None])
   \<and> int 2000000 > 800 * 1024"
  by (simp add: compress_def scaling_browser_def scaling_blob_def)

section \<open>The size of the resized canvas\<close>

lemma normal_lower_bound: "(2::real) powi (- 1022) \<le> 1 / 2 ^ 33"
proof -
  have "(2::real) powi (- 1022) \<le> 2 powi (- 33)"
    by (intro power_int_increasing) simp_all
  then show ?thesis
    by (simp add: power_int_minus_divide)
qed

lemma dbl_close:
  assumes "2 powi (- 1022) \<le> x"
  shows "dbl x \<le> x + x / 2 ^ 53" and "x - x / 2 ^ 53 \<le> dbl x"
  using dbl_relative_error [OF assms] by linarith+

text \<open>The ratio \<open>750 / width\<close> as \<open>resize\<close> computes it.\<close>

lemma resize_ratio:
  fixes w :: nat
  assumes "0 < w" and "w < 2 ^ 32"
  shows "js_div 750 (real w) = Finite (dbl (750 / real w))"
    and "\<bar>dbl (750 / real w) - 750 / real w\<bar> \<le> (750 / real w) / 2 ^ 53"
    and "1 / 2 ^ 32 \<le> 750 / real w" and "750 / real w \<le> 750"
proof -
  let ?q = "750 / real w"
  have w1: "1 \<le> real w" using assms(1) by simp
  have w2: "real w \<le> 2 ^ 32"
    using assms(2) by (metis less_imp_le of_nat_le_iff of_nat_numeral of_nat_power)
  have wpos: "0 < real w" using w1 by linarith
  show up: "?q \<le> 750"
    using w1 wpos by (simp add: field_simps)
  have "1 * real w \<le> 750 * 2 ^ 32"
    using w2 by linarith
  then show lo: "1 / 2 ^ 32 \<le> ?q"
    using wpos by (simp add: field_simps)
  have "(1::real) / 2 ^ 33 \<le> 1 / 2 ^ 32" by simp
  with normal_lower_bound lo have n: "2 powi (- 1022) \<le> ?q" by linarith
  show "\<bar>dbl ?q - ?q\<bar> \<le> ?q / 2 ^ 53"
    by (rule dbl_relative_error [OF n])
  have "dbl ?q \<le> ?q + ?q / 2 ^ 53"
    by (rule dbl_close(1) [OF n])
  also have "\<dots> \<le> 750 + 750 / 2 ^ 53"
    using up by (intro add_mono divide_right_mono) simp_all
  also have "\<dots> < 2 ^ 1024" by simp
  finally have "\<not> 2 ^ 1024 \<le> dbl ?q" by simp
  then show "js_div 750 (real w) = Finite (dbl ?q)"
    using wpos by (simp add: js_div_def js_number_def)
qed

text \<open>The product \<open>height * ratio\<close>: a finite number, close to the exact quotient.\<close>

lemma resize_product:
  fixes w h :: nat
  assumes "0 < w" and "w < 2 ^ 32" and "h < 2 ^ 32"
  shows "js_mul (real h) (js_div 750 (real w)) = Finite (dbl (real h * dbl (750 / real w)))"
    and "\<bar>dbl (real h * dbl (750 / real w)) - real h * 750 / real w\<bar> * (2 * real w) < 1"
proof -
  have "js_mul (real h) (js_div 750 (real w)) = Finite (dbl (real h * dbl (750 / real w)))
      \<and> \<bar>dbl (real h * dbl (750 / real w)) - real h * 750 / real w\<bar> * (2 * real w) < 1"
  proof (cases "h = 0")
    case True
    have "js_mul (real h) (js_div 750 (real w)) = Finite 0"
      using True by (simp add: resize_ratio(1) [OF assms(1,2)] js_number_def dbl_def)
    moreover have "dbl (real h * dbl (750 / real w)) = 0"
      using True by (simp add: dbl_def)
    ultimately show ?thesis
      using True by simp
  next
    case False
    define q where "q = 750 / real w"
    define r where "r = dbl q"
    define x where "x = real h * q"
    define y where "y = real h * r"
    define p where "p = dbl y"
    note ratio = resize_ratio [OF assms(1,2), folded q_def, folded r_def]
    have wpos: "0 < real w" using assms(1) by simp
    have h1: "1 \<le> real h" using False by simp
    have h2: "real h \<le> 2 ^ 32"
      using assms(3) by (metis less_imp_le of_nat_le_iff of_nat_numeral of_nat_power)
    have qpos: "0 < q" using wpos by (simp add: q_def)
    have rq: "\<bar>r - q\<bar> \<le> q / 9007199254740992"
      using ratio(2) by simp
    have xpos: "0 < x" using h1 qpos by (simp add: x_def)
    have "\<bar>y - x\<bar> = \<bar>real h * (r - q)\<bar>"
      by (simp add: x_def y_def algebra_simps)
    also have "\<dots> = real h * \<bar>r - q\<bar>"
      by (simp only: abs_mult abs_of_nat)
    also have "\<dots> \<le> real h * (q / 9007199254740992)"
      using h1 rq by (intro mult_left_mono) simp_all
    finally have yx: "\<bar>y - x\<bar> \<le> x / 9007199254740992"
      by (simp add: x_def)
    have rhalf: "q / 2 \<le> r" using rq qpos by linarith
    have rpos: "0 < r" using rhalf qpos by linarith
    have "r * 1 \<le> r * real h"
      using h1 rpos by (intro mult_left_mono) simp_all
    then have ry: "r \<le> y" by (simp add: y_def mult.commute)
    have q32: "1 / 4294967296 \<le> q"
      using ratio(3) by simp
    have "(1::real) / 8589934592 \<le> y"
      using ry rhalf q32 by linarith
    then have "(1::real) / 2 ^ 33 \<le> y" by simp
    with normal_lower_bound have ny: "2 powi (- 1022) \<le> y" by linarith
    have py: "\<bar>p - y\<bar> \<le> y / 9007199254740992"
      using dbl_relative_error [OF ny] by (simp add: p_def)
    have y2: "y \<le> 2 * x" using yx xpos by linarith
    have px: "\<bar>p - x\<bar> \<le> 3 * x / 9007199254740992"
      using py yx y2 by linarith
    have "x \<le> 2 ^ 32 * 750"
      unfolding x_def using h2 ratio(4) h1 qpos by (intro mult_mono) simp_all
    then have "x \<le> 3221225472000" by simp
    then have "p \<le> 6442450944000"
      using px xpos by linarith
    also have "\<dots> < (2::real) ^ 1024" by simp
    finally have "p < 2 ^ 1024" .
    then have fin: "js_mul (real h) (js_div 750 (real w)) = Finite p"
      by (simp add: ratio(1) js_number_def p_def y_def)
    have xw: "x * (2 * real w) = 1500 * real h"
      using wpos by (simp add: x_def q_def)
    have "\<bar>p - x\<bar> * (2 * real w) \<le> (3 * x / 9007199254740992) * (2 * real w)"
      using px wpos by (intro mult_right_mono) simp_all
    also have "\<dots> = 3 * (x * (2 * real w)) / 9007199254740992"
      by simp
    also have "\<dots> = 4500 * real h / 9007199254740992"
      by (simp only: xw)
    also have "\<dots> < 1"
      using h2 by simp
    finally have "\<bar>p - x\<bar> * (2 * real w) < 1" .
    moreover have "x = real h * 750 / real w"
      by (simp add: x_def q_def)
    moreover have "p = dbl (real h * dbl (750 / real w))"
      by (simp add: p_def y_def r_def q_def)
    ultimately show ?thesis
      using fin by simp
  qed
  then show "js_mul (real h) (js_div 750 (real w)) = Finite (dbl (real h * dbl (750 / real w)))"
    and "\<bar>dbl (real h * dbl (750 / real w)) - real h * 750 / real w\<bar> * (2 * real w) < 1"
    by simp_all
qed

text \<open>An integer within \<open>1 / 2 + 1 / (2 w)\<close> of a multiple of \<open>1 / w\<close> is within
  \<open>1 / 2\<close> of it.\<close>

lemma nearest_on_grid:
  fixes w :: nat and n k :: int
  assumes "0 < w"
    and "\<bar>real_of_int n - real_of_int k / real w\<bar> * (2 * real w) < real w + 1"
  shows "\<bar>real_of_int n - real_of_int k / real w\<bar> \<le> 1 / 2"
proof -
  have wpos: "0 < real w" using assms(1) by simp
  have "\<bar>real_of_int n - real_of_int k / real w\<bar> * (2 * real w)
          = \<bar>(real_of_int n - real_of_int k / real w) * (2 * real w)\<bar>"
    using wpos by (simp add: abs_mult)
  also have "(real_of_int n - real_of_int k / real w) * (2 * real w)
          = real_of_int (2 * n * int w - 2 * k)"
    using wpos by (simp add: field_simps)
  finally have e: "\<bar>real_of_int n - real_of_int k / real w\<bar> * (2 * real w)
          = real_of_int \<bar>2 * n * int w - 2 * k\<bar>"
    by simp
  with assms(2) have "real_of_int \<bar>2 * n * int w - 2 * k\<bar> < real_of_int (int w + 1)"
    by simp
  then have "\<bar>2 * n * int w - 2 * k\<bar> < int w + 1"
    by (simp only: of_int_less_iff)
  then have "\<bar>2 * n * int w - 2 * k\<bar> \<le> int w" by simp
  then have "real_of_int \<bar>2 * n * int w - 2 * k\<bar> \<le> real_of_int (int w)"
    by (simp only: of_int_le_iff)
  with e have "\<bar>real_of_int n - real_of_int k / real w\<bar> * (2 * real w) \<le> real w"
    by simp
  then show ?thesis
    using wpos by (simp add: field_simps)
qed

lemma frac_half: "frac (real_of_int m + 1 / 2) = 1 / 2"
  unfolding frac_unique_iff by simp

lemma nearest_is_round:
  fixes x :: real
  assumes "\<bar>real_of_int n - x\<bar> \<le> 1 / 2" and "frac x \<noteq> 1 / 2"
  shows "n = \<lfloor>x + 1 / 2\<rfloor>"
proof -
  have "x \<noteq> real_of_int n - 1 / 2"
  proof
    assume "x = real_of_int n - 1 / 2"
    then have "x = real_of_int (n - 1) + 1 / 2" by simp
    then have "frac x = 1 / 2"
      by (simp only: frac_half)
    with assms(2) show False by simp
  qed
  with assms(1) have "real_of_int n - 1 / 2 < x" "x \<le> real_of_int n + 1 / 2"
    by linarith+
  moreover have "x \<noteq> real_of_int n + 1 / 2"
  proof
    assume "x = real_of_int n + 1 / 2"
    then have "frac x = 1 / 2"
      by (simp only: frac_half)
    with assms(2) show False by simp
  qed
  ultimately have "real_of_int n \<le> x + 1 / 2" "x + 1 / 2 < real_of_int n + 1"
    by linarith+
  then show ?thesis
    by (simp add: floor_unique)
qed


text \<open>At an exact tie the product decides: at or above the tie the height is the upper
  neighbour, below it the lower one.\<close>

lemma round_at_tie:
  fixes x p :: real
  assumes "frac x = 1 / 2" and "\<bar>p - x\<bar> < 1 / 2"
  shows "\<lfloor>p + 1 / 2\<rfloor> = (if x \<le> p then \<lfloor>x\<rfloor> + 1 else \<lfloor>x\<rfloor>)"
proof -
  have x: "x = real_of_int \<lfloor>x\<rfloor> + 1 / 2"
    using assms(1) by (simp add: frac_def)
  show ?thesis
  proof (cases "x \<le> p")
    case True
    have "real_of_int (\<lfloor>x\<rfloor> + 1) \<le> p + 1 / 2" "p + 1 / 2 < real_of_int (\<lfloor>x\<rfloor> + 1) + 1"
      using True x assms(2) by linarith+
    then have "\<lfloor>p + 1 / 2\<rfloor> = \<lfloor>x\<rfloor> + 1"
      by (rule floor_unique)
    with True show ?thesis by simp
  next
    case False
    have "real_of_int \<lfloor>x\<rfloor> \<le> p + 1 / 2" "p + 1 / 2 < real_of_int \<lfloor>x\<rfloor> + 1"
      using False x assms(2) by linarith+
    then have "\<lfloor>p + 1 / 2\<rfloor> = \<lfloor>x\<rfloor>"
      by (rule floor_unique)
    with False show ?thesis by simp
  qed
qed

text \<open>
  Claim C6, as amended. For every image of intrinsic width \<open>w > 0\<close> and height \<open>h\<close>
  (pixel counts, below \<open>2^32\<close>) whose scaled height \<open>h * 750 / w\<close> is at most
  2147483647, the largest height a canvas holds, \<open>resize\<close> with target width 750
  produces a canvas of width exactly 750 and of height exactly
  \<open>Math.round(h * (750 / w))\<close> in double arithmetic: the ratio is rounded to a double,
  then the product \<open>p\<close>, and \<open>p\<close> goes to the nearest integer, a tie of \<open>p\<close> going up.
  This height is within \<open>1 / 2\<close> of \<open>h * 750 / w\<close>. It is \<open>round (h * 750 / w)\<close>
  whenever \<open>h * 750 / w\<close> is not exactly halfway between two integers; when it is, the
  height is the upper neighbour if \<open>p\<close> is not below \<open>h * 750 / w\<close> (2000 x 1500 gives
  563) and the lower neighbour if it is (36 x 393 gives 8187). The \<open>maxHeight\<close> argument
  plays no part: no clamp is applied, and the height may exceed 750. A 1500 x 1000 image
  gives exactly 750 x 500, and a 500 x 1500 image 750 x 2250.
\<close>

theorem resize_dimensions:
  assumes "0 < naturalWidth img"
    and "naturalWidth img < 2 ^ 32"
    and "naturalHeight img < 2 ^ 32"
    and "naturalHeight img * 750 \<le> 2147483647 * naturalWidth img"
  shows "canvas_width (resize img 750 maxHeight) = 750
     \<and> (let x = real (naturalHeight img) * 750 / real (naturalWidth img);
             p = dbl (real (naturalHeight img) * dbl (750 / real (naturalWidth img)));
             n = \<lfloor>p + 1 / 2\<rfloor>
         in canvas_height (resize img 750 maxHeight) = Finite (real_of_int n)
            \<and> 0 \<le> n \<and> n \<le> 2147483647
            \<and> \<bar>real_of_int n - x\<bar> \<le> 1 / 2
            \<and> (frac x \<noteq> 1 / 2 \<longrightarrow> n = \<lfloor>x + 1 / 2\<rfloor>)
            \<and> (frac x = 1 / 2 \<longrightarrow> n = (if x \<le> p then \<lfloor>x\<rfloor> + 1 else \<lfloor>x\<rfloor>)))"
proof -
  let ?w = "naturalWidth img"
  let ?h = "naturalHeight img"
  define x where "x = real ?h * 750 / real ?w"
  define p where "p = dbl (real ?h * dbl (750 / real ?w))"
  define n where "n = \<lfloor>p + 1 / 2\<rfloor>"
  note prod = resize_product [OF assms(1,2,3), folded p_def, folded x_def]
  have close: "\<bar>p - x\<bar> * (2 * real ?w) < 1"
    using prod(2) by (simp add: x_def)
  have wpos: "0 < real ?w" using assms(1) by simp
  have w1: "1 \<le> real ?w" using assms(1) by simp
  have height: "canvas_height (resize img 750 maxHeight) = Finite (real_of_int n)"
    by (simp add: resize_def Let_def prod(1) n_def)
  have np: "\<bar>real_of_int n - p\<bar> \<le> 1 / 2"
    unfolding n_def by linarith
  have "\<bar>real_of_int n - x\<bar> \<le> \<bar>real_of_int n - p\<bar> + \<bar>p - x\<bar>"
    by linarith
  then have "\<bar>real_of_int n - x\<bar> * (2 * real ?w)
      \<le> (\<bar>real_of_int n - p\<bar> + \<bar>p - x\<bar>) * (2 * real ?w)"
    using wpos by (intro mult_right_mono) simp_all
  also have "\<dots> = \<bar>real_of_int n - p\<bar> * (2 * real ?w) + \<bar>p - x\<bar> * (2 * real ?w)"
    by (simp add: algebra_simps)
  finally have t: "\<bar>real_of_int n - x\<bar> * (2 * real ?w)
      \<le> \<bar>real_of_int n - p\<bar> * (2 * real ?w) + \<bar>p - x\<bar> * (2 * real ?w)" .
  have "\<bar>real_of_int n - p\<bar> * (2 * real ?w) \<le> 1 / 2 * (2 * real ?w)"
    using np wpos by (intro mult_right_mono) simp_all
  with t close have "\<bar>real_of_int n - x\<bar> * (2 * real ?w) < real ?w + 1"
    by linarith
  moreover have xk: "x = real_of_int (int ?h * 750) / real ?w"
    by (simp add: x_def)
  ultimately have "\<bar>real_of_int n - real_of_int (int ?h * 750) / real ?w\<bar> * (2 * real ?w)
      < real ?w + 1"
    by simp
  from nearest_on_grid [OF assms(1) this]
  have near: "\<bar>real_of_int n - x\<bar> \<le> 1 / 2"
    by (simp only: xk)
  define d where "d = \<bar>p - x\<bar>"
  have d0: "0 \<le> d" by (simp add: d_def)
  have "d * 1 \<le> d * real ?w"
    using w1 d0 by (intro mult_left_mono) simp_all
  moreover have "d * real ?w < 1 / 2"
    using close by (simp add: d_def)
  ultimately have "d < 1 / 2" by linarith
  then have px: "\<bar>p - x\<bar> < 1 / 2" by (simp add: d_def)
  have x0: "0 \<le> x" using wpos by (simp add: x_def)
  have "real (?h * 750) \<le> real (2147483647 * ?w)"
    using assms(4) by (simp only: of_nat_le_iff)
  then have "real ?h * 750 \<le> 2147483647 * real ?w" by simp
  then have xmax: "x \<le> 2147483647"
    using wpos by (simp add: x_def field_simps)
  have "- 1 < real_of_int n" using near x0 by linarith
  then have "- 1 < n" by linarith
  then have nlo: "0 \<le> n" by simp
  have "real_of_int n < 2147483648" using near xmax by linarith
  then have "n < 2147483648" by linarith
  then have nhi: "n \<le> 2147483647" by simp
  have width: "canvas_width (resize img 750 maxHeight) = 750"
    by (simp add: resize_def Let_def)
  have nontie: "frac x \<noteq> 1 / 2 \<longrightarrow> n = \<lfloor>x + 1 / 2\<rfloor>"
    using nearest_is_round [OF near] by blast
  have tie: "frac x = 1 / 2 \<longrightarrow> n = (if x \<le> p then \<lfloor>x\<rfloor> + 1 else \<lfloor>x\<rfloor>)"
    using round_at_tie [OF _ px] unfolding n_def by blast
  show ?thesis
    unfolding Let_def
    using width height nlo nhi near nontie tie
    unfolding x_def p_def n_def by blast
qed

theorem resize_dimensions_witness:
  "(0 < naturalWidth example_image \<and> naturalWidth example_image < 2 ^ 32
    \<and> naturalHeight example_image < 2 ^ 32
    \<and> naturalHeight example_image * 750 \<le> 2147483647 * naturalWidth example_image
    \<and> frac (real (naturalHeight example_image) * 750 / real (naturalWidth example_image)) = 0
    \<and> canvas_width (resize example_image 750 750) = 750
    \<and> canvas_height (resize example_image 750 750) = Finite 500)
 \<and> (0 < naturalWidth tall_image \<and> naturalWidth tall_image < 2 ^ 32
    \<and> naturalHeight tall_image < 2 ^ 32
    \<and> naturalHeight tall_image * 750 \<le> 2147483647 * naturalWidth tall_image
    \<and> frac (real (naturalHeight tall_image) * 750 / real (naturalWidth tall_image)) = 0
    \<and> canvas_width (resize tall_image 750 750) = 750
    \<and> canvas_height (resize tall_image 750 750) = Finite 2250)
 \<and> (0 < naturalWidth half_image \<and> naturalWidth half_image < 2 ^ 32
    \<and> naturalHeight half_image < 2 ^ 32
    \<and> naturalHeight half_image * 750 \<le> 2147483647 * naturalWidth half_image
    \<and> real (naturalHeight half_image) * 750 / real (naturalWidth half_image) = 1125 / 2
    \<and> dbl (real (naturalHeight half_image) * dbl (750 / real (naturalWidth half_image)))
        = 1125 / 2
    \<and> canvas_width (resize half_image 750 750) = 750
    \<and> canvas_height (resize half_image 750 750) = Finite 563)
 \<and> (0 < naturalWidth tie_image \<and> naturalWidth tie_image < 2 ^ 32
    \<and> naturalHeight tie_image < 2 ^ 32
    \<and> naturalHeight tie_image * 750 \<le> 2147483647 * naturalWidth tie_image
    \<and> real (naturalHeight tie_image) * 750 / real (naturalWidth tie_image) = 16375 / 2
    \<and> dbl (real (naturalHeight tie_image) * dbl (750 / real (naturalWidth tie_image)))
        < 16375 / 2
    \<and> canvas_width (resize tie_image 750 750) = 750
    \<and> canvas_height (resize tie_image 750 750) = Finite 8187)"
proof -
  have a: "0 < naturalWidth example_image" "naturalWidth example_image < 2 ^ 32"
    "naturalHeight example_image < 2 ^ 32"
    "naturalHeight example_image * 750 \<le> 2147483647 * naturalWidth example_image"
    by (simp_all add: example_image_def)
  have xa: "real (naturalHeight example_image) * 750 / real (naturalWidth example_image) = 500"
    by (simp add: example_image_def)
  have fa: "frac (real (naturalHeight example_image) * 750 / real (naturalWidth example_image)) = 0"
    unfolding xa frac_eq_0_iff by simp
  have ra: "canvas_width (resize example_image 750 750) = 750
      \<and> canvas_height (resize example_image 750 750) = Finite 500"
  proof -
    let ?p = "dbl (real (naturalHeight example_image) * dbl (750 / real (naturalWidth example_image)))"
    from resize_dimensions [OF a, of 750]
    have w: "canvas_width (resize example_image 750 750) = 750"
      and h: "canvas_height (resize example_image 750 750) =
                Finite (real_of_int \<lfloor>?p + 1 / 2\<rfloor>)"
      and t: "frac (500 :: real) \<noteq> 1 / 2 \<longrightarrow>
                \<lfloor>?p + 1 / 2\<rfloor> = \<lfloor>(500 :: real) + 1 / 2\<rfloor>"
      unfolding Let_def xa by blast+
    have "frac (500 :: real) = 0"
      using fa unfolding xa .
    with t have "\<lfloor>?p + 1 / 2\<rfloor> = \<lfloor>(500 :: real) + 1 / 2\<rfloor>"
      by simp
    then have "\<lfloor>?p + 1 / 2\<rfloor> = 500" by simp
    with w h show ?thesis by simp
  qed
  have b: "0 < naturalWidth tall_image" "naturalWidth tall_image < 2 ^ 32"
    "naturalHeight tall_image < 2 ^ 32"
    "naturalHeight tall_image * 750 \<le> 2147483647 * naturalWidth tall_image"
    by (simp_all add: tall_image_def)
  have xb: "real (naturalHeight tall_image) * 750 / real (naturalWidth tall_image) = 2250"
    by (simp add: tall_image_def)
  have fb: "frac (real (naturalHeight tall_image) * 750 / real (naturalWidth tall_image)) = 0"
    unfolding xb frac_eq_0_iff by simp
  have rb: "canvas_width (resize tall_image 750 750) = 750
      \<and> canvas_height (resize tall_image 750 750) = Finite 2250"
  proof -
    let ?p = "dbl (real (naturalHeight tall_image) * dbl (750 / real (naturalWidth tall_image)))"
    from resize_dimensions [OF b, of 750]
    have w: "canvas_width (resize tall_image 750 750) = 750"
      and h: "canvas_height (resize tall_image 750 750) =
                Finite (real_of_int \<lfloor>?p + 1 / 2\<rfloor>)"
      and t: "frac (2250 :: real) \<noteq> 1 / 2 \<longrightarrow>
                \<lfloor>?p + 1 / 2\<rfloor> = \<lfloor>(2250 :: real) + 1 / 2\<rfloor>"
      unfolding Let_def xb by blast+
    have "frac (2250 :: real) = 0"
      using fb unfolding xb .
    with t have "\<lfloor>?p + 1 / 2\<rfloor> = \<lfloor>(2250 :: real) + 1 / 2\<rfloor>"
      by simp
    then have "\<lfloor>?p + 1 / 2\<rfloor> = 2250" by simp
    with w h show ?thesis by simp
  qed
  have c: "0 < naturalWidth half_image" "naturalWidth half_image < 2 ^ 32"
    "naturalHeight half_image < 2 ^ 32"
    "naturalHeight half_image * 750 \<le> 2147483647 * naturalWidth half_image"
    by (simp_all add: half_image_def)
  have xc: "real (naturalHeight half_image) * 750 / real (naturalWidth half_image) = 1125 / 2"
    by (simp add: half_image_def)
  have pc: "dbl (real (naturalHeight half_image) * dbl (750 / real (naturalWidth half_image)))
      = 1125 / 2"
    by (simp add: half_image_def dbl_eval)
  have fc: "frac (1125 / 2 :: real) = 1 / 2"
    by (simp add: frac_def)
  have rc: "canvas_width (resize half_image 750 750) = 750
      \<and> canvas_height (resize half_image 750 750) = Finite 563"
  proof -
    from resize_dimensions [OF c, of 750]
    have w: "canvas_width (resize half_image 750 750) = 750"
      and h: "canvas_height (resize half_image 750 750) =
                Finite (real_of_int \<lfloor>(1125 / 2 :: real) + 1 / 2\<rfloor>)"
      and t: "frac (1125 / 2 :: real) = 1 / 2 \<longrightarrow>
                \<lfloor>(1125 / 2 :: real) + 1 / 2\<rfloor>
                  = (if (1125 / 2 :: real) \<le> 1125 / 2 then \<lfloor>1125 / 2 :: real\<rfloor> + 1
                     else \<lfloor>1125 / 2 :: real\<rfloor>)"
      unfolding Let_def xc pc by blast+
    from t fc have "\<lfloor>(1125 / 2 :: real) + 1 / 2\<rfloor> = \<lfloor>1125 / 2 :: real\<rfloor> + 1"
      by simp
    then have "\<lfloor>(1125 / 2 :: real) + 1 / 2\<rfloor> = 563" by simp
    with w h show ?thesis by simp
  qed
  have d: "0 < naturalWidth tie_image" "naturalWidth tie_image < 2 ^ 32"
    "naturalHeight tie_image < 2 ^ 32"
    "naturalHeight tie_image * 750 \<le> 2147483647 * naturalWidth tie_image"
    by (simp_all add: tie_image_def)
  have xd: "real (naturalHeight tie_image) * 750 / real (naturalWidth tie_image) = 16375 / 2"
    by (simp add: tie_image_def)
  have pd: "dbl (real (naturalHeight tie_image) * dbl (750 / real (naturalWidth tie_image)))
      < 16375 / 2"
    by (simp add: tie_image_def dbl_eval)
  have fd: "frac (16375 / 2 :: real) = 1 / 2"
    by (simp add: frac_def)
  have rd: "canvas_width (resize tie_image 750 750) = 750
      \<and> canvas_height (resize tie_image 750 750) = Finite 8187"
  proof -
    let ?p = "dbl (real (naturalHeight tie_image) * dbl (750 / real (naturalWidth tie_image)))"
    from resize_dimensions [OF d, of 750]
    have w: "canvas_width (resize tie_image 750 750) = 750"
      and h: "canvas_height (resize tie_image 750 750) =
                Finite (real_of_int \<lfloor>?p + 1 / 2\<rfloor>)"
      and t: "frac (16375 / 2 :: real) = 1 / 2 \<longrightarrow>
                \<lfloor>?p + 1 / 2\<rfloor>
                  = (if (16375 / 2 :: real) \<le> ?p then \<lfloor>16375 / 2 :: real\<rfloor> + 1
                     else \<lfloor>16375 / 2 :: real\<rfloor>)"
      unfolding Let_def xd by blast+
    from t fd pd have "\<lfloor>?p + 1 / 2\<rfloor> = \<lfloor>16375 / 2 :: real\<rfloor>"
      by simp
    then have "\<lfloor>?p + 1 / 2\<rfloor> = 8187" by simp
    with w h show ?thesis by simp
  qed
  from a fa ra b fb rb c xc pc rc d xd pd rd show ?thesis by blast
qed

text \<open>
  The claim as first stated gives the height as \<open>round (h * 750 / w)\<close> for every image.
  \<open>resize\<close> rounds the ratio \<open>750 / w\<close> to a double before it multiplies, and where
  \<open>h * 750 / w\<close> is exactly halfway between two integers the product can fall just
  below the half: for a 36 x 393 image \<open>h * 750 / w = 8187.5\<close>, which rounds to 8188,
  and the canvas height is 8187.
\<close>

theorem resize_tie_counterexample:
  "0 < naturalWidth tie_image
   \<and> canvas_width (resize tie_image 750 750) = 750
   \<and> canvas_height (resize tie_image 750 750) = Finite 8187
   \<and> round (real (naturalHeight tie_image) * 750 / real (naturalWidth tie_image)) = 8188"
  by (simp add: tie_image_def resize_def dbl_eval round_def)

section \<open>The quality search\<close>

declare compress_loop.simps [simp del]

lemma compress_loop_step:
  assumes "\<forall>q. E (Some q) = Some (enc q)" and "i < 10"
  shows "compress_loop E B i s =
           (fst (compress_loop E B (i + 1) (spec_round enc B s)),
            js_midpoint (minQuality s) (maxQuality s)
              # snd (compress_loop E B (i + 1) (spec_round enc B s)))"
  using assms by (subst compress_loop.simps) (simp add: spec_round_def Let_def)

lemma compress_loop_spec:
  assumes enc: "\<forall>q. E (Some q) = Some (enc q)"
  shows "i + k = 10 \<Longrightarrow>
    compress_loop E B i s =
      (Inr (fst (spec_rounds enc B k s)), snd (spec_rounds enc B k s))"
proof (induction k arbitrary: i s)
  case 0
  then show ?case
    by (subst compress_loop.simps) simp
next
  case (Suc k)
  then have i: "i < 10" and n: "Suc i + k = 10" by simp_all
  show ?case
    by (simp add: compress_loop_step [OF enc i] Suc.IH [OF n] Let_def)
qed

lemma spec_rounds_length: "length (snd (spec_rounds enc B n s)) = n"
  by (induction n arbitrary: s) (simp_all add: Let_def)



text \<open>The bounds stay doubles inside the initial interval, and every round encodes
  between them.\<close>

lemma spec_round_bounds:
  assumes "bounds_ok lo hi s"
  shows "bounds_ok lo hi (spec_round enc B s)"
    and "lo \<le> js_midpoint (minQuality s) (maxQuality s)"
    and "js_midpoint (minQuality s) (maxQuality s) \<le> hi"
proof -
  from assms have a: "dbl (minQuality s) = minQuality s" "dbl (maxQuality s) = maxQuality s"
    "2 powi (- 1021) \<le> minQuality s" "minQuality s \<le> maxQuality s"
    "lo \<le> minQuality s" "maxQuality s \<le> hi" "2 powi (- 1021) \<le> lo"
    by (simp_all add: bounds_ok_def)
  note m = js_midpoint_between [OF a(1) a(2) a(3) a(4)]
  show "bounds_ok lo hi (spec_round enc B s)"
    using a m by (simp add: bounds_ok_def spec_round_def Let_def)
  show "lo \<le> js_midpoint (minQuality s) (maxQuality s)"
    using a(5) m(1) by linarith
  show "js_midpoint (minQuality s) (maxQuality s) \<le> hi"
    using a(6) m(2) by linarith
qed

lemma spec_rounds_bounds:
  assumes "bounds_ok lo hi s"
  shows "bounds_ok lo hi (fst (spec_rounds enc B n s))"
    and "\<forall>q \<in> set (snd (spec_rounds enc B n s)). lo \<le> q \<and> q \<le> hi"
  using assms
proof (induction n arbitrary: s)
  case 0
  {
    case 1 then show ?case by simp
  next
    case 2 then show ?case by simp
  }
next
  case (Suc n)
  {
    case 1
    from Suc.IH(1) [OF spec_round_bounds(1) [OF 1]] show ?case
      by (simp add: Let_def)
  next
    case 2
    from Suc.IH(2) [OF spec_round_bounds(1) [OF 2]] spec_round_bounds(2,3) [OF 2]
    show ?case
      by (simp add: Let_def)
  }
qed


lemma dbl_one: "dbl 1 = 1"
  by (simp add: dbl_eval)

lemma dbl_tenth: "dbl (1 / 10) = 3602879701896397 / 36028797018963968"
  by (simp add: dbl_eval)

lemma initial_bounds:
  "bounds_ok (dbl (1 / 10)) 1 \<lparr>minQuality = dbl (1 / 10), maxQuality = 1, bestBlob = b\<rparr>"
proof -
  have "(2::real) powi (- 1022) \<le> 1 / 10"
    by (simp add: power_int_minus_divide)
  from dbl_idem [OF this] have "dbl (dbl (1 / 10)) = dbl (1 / 10)" .
  moreover have "(2::real) powi (- 1021) \<le> dbl (1 / 10)"
    by (simp add: dbl_tenth power_int_minus_divide)
  moreover have "dbl (1 / 10) \<le> 1"
    by (simp add: dbl_tenth)
  ultimately show ?thesis
    by (simp add: bounds_ok_def dbl_one)
qed

lemma compress_unfold:
  assumes fmt: "format \<noteq> ''image/png''"
    and enc: "\<forall>q. toBlob br cv format (Some q) = Some (enc q)"
  shows "compress br cv maxSizeKB format =
    (if int (blob_size (enc 1)) \<le> maxSizeKB * 1024
     then (Inr (Some (enc 1)), [ToBlob cv format (Some 1)])
     else
       (let run = spec_rounds enc (maxSizeKB * 1024) 10
                    \<lparr>minQuality = dbl (1 / 10), maxQuality = 1, bestBlob = enc 1\<rparr>
        in if maxSizeKB * 1024 < int (blob_size (bestBlob (fst run)))
           then (Inr (Some (enc (minQuality (fst run)))),
                 ToBlob cv format (Some 1) # map (\<lambda>q. ToBlob cv format (Some q)) (snd run)
                   @ [ToBlob cv format (Some (minQuality (fst run)))])
           else (Inr (Some (bestBlob (fst run))),
                 ToBlob cv format (Some 1) # map (\<lambda>q. ToBlob cv format (Some q)) (snd run))))"
proof -
  have loop: "compress_loop (toBlob br cv format) B 0 s =
      (Inr (fst (spec_rounds enc B 10 s)), snd (spec_rounds enc B 10 s))" for B s
    by (rule compress_loop_spec [OF enc]) simp
  show ?thesis
    using fmt enc by (simp add: compress_def Let_def loop)
qed

lemma ten_rounds: "(10::nat) = Suc (Suc (Suc (Suc (Suc (Suc (Suc (Suc (Suc (Suc 0)))))))))"
  by simp

lemma search_example:
  "spec_rounds (scaling_blob ''image/jpeg'') 819200 10
     \<lparr>minQuality = dbl (1 / 10), maxQuality = 1, bestBlob = scaling_blob ''image/jpeg'' 1\<rparr> =
   (\<lparr>minQuality = 7374644389819187 / 18014398509481984,
     maxQuality = 3695238678629581 / 9007199254740992,
     bestBlob = \<lparr>blob_size = 818749, blob_type = ''image/jpeg'', blob_data = 7\<rparr>\<rparr>,
    [2476979795053773 / 4503599627370496,
     5854679515581645 / 18014398509481984,
     7 / 16,
     3433994715870003 / 9007199254740992,
     7374644389819187 / 18014398509481984,
     3813985934429389 / 9007199254740992,
     3750654064669491 / 9007199254740992,
     1859494064894771 / 4503599627370496,
     421 / 1024,
     3695238678629581 / 9007199254740992])"
  unfolding ten_rounds
  by (simp add: spec_round_def js_midpoint_def scaling_blob_def dbl_eval)

lemma scaling_encoder:
  "\<forall>q. toBlob scaling_browser cv fmt (Some q) = Some (scaling_blob fmt q)"
  by (simp add: scaling_browser_def)


text \<open>
  Claim C2. For a lossy format (any format but \<open>image/png\<close>) and an encoder that
  always produces a blob, \<open>compress\<close> first encodes once at quality 1 and returns that
  blob at once when it fits \<open>maxSizeKB * 1024\<close>. Otherwise it runs exactly 10 rounds of
  the search of the specification from the bounds 0.1 and 1: each round encodes at
  \<open>(minQuality + maxQuality) / 2\<close>, a quality between 0.1 and 1, and a blob that fits
  becomes the best blob and moves \<open>minQuality\<close> to the midpoint, while one that does not
  moves \<open>maxQuality\<close> to it (\<open>spec_round\<close>). What \<open>compress\<close> returns after the
  rounds is the best blob when that fits, and one more encode at \<open>minQuality\<close>
  otherwise.
\<close>

theorem compress_search:
  assumes fmt: "format \<noteq> ''image/png''"
    and enc: "\<forall>q. toBlob br cv format (Some q) = Some (enc q)"
  shows
    "(int (blob_size (enc 1)) \<le> maxSizeKB * 1024 \<longrightarrow>
        compress br cv maxSizeKB format =
          (Inr (Some (enc 1)), [ToBlob cv format (Some 1)]))
   \<and> (maxSizeKB * 1024 < int (blob_size (enc 1)) \<longrightarrow>
        (let run = spec_rounds enc (maxSizeKB * 1024) 10
                     \<lparr>minQuality = dbl (1 / 10), maxQuality = 1, bestBlob = enc 1\<rparr>;
             rounds = map (\<lambda>q. ToBlob cv format (Some q)) (snd run)
         in compress br cv maxSizeKB format =
              (if maxSizeKB * 1024 < int (blob_size (bestBlob (fst run)))
               then (Inr (Some (enc (minQuality (fst run)))),
                     ToBlob cv format (Some 1) # rounds
                       @ [ToBlob cv format (Some (minQuality (fst run)))])
               else (Inr (Some (bestBlob (fst run))), ToBlob cv format (Some 1) # rounds))
            \<and> length rounds = 10
            \<and> (\<forall>q \<in> set (snd run). dbl (1 / 10) \<le> q \<and> q \<le> 1)))"
proof -
  let ?init = "\<lparr>minQuality = dbl (1 / 10), maxQuality = 1, bestBlob = enc 1\<rparr>"
  let ?run = "spec_rounds enc (maxSizeKB * 1024) 10 ?init"
  have len: "length (snd ?run) = 10"
    by (rule spec_rounds_length)
  have rng: "\<forall>q \<in> set (snd ?run). dbl (1 / 10) \<le> q \<and> q \<le> 1"
    by (rule spec_rounds_bounds(2) [OF initial_bounds])
  show ?thesis
    using len rng by (simp add: compress_unfold [OF fmt enc] Let_def)
qed

theorem compress_search_witness:
  "''image/jpeg'' \<noteq> ''image/png''
   \<and> (\<forall>q. toBlob scaling_browser example_canvas ''image/jpeg'' (Some q) =
            Some (scaling_blob ''image/jpeg'' q))
   \<and> 800 * 1024 < int (blob_size (scaling_blob ''image/jpeg'' 1))
   \<and> compress scaling_browser example_canvas 800 ''image/jpeg'' =
       (Inr (Some \<lparr>blob_size = 818749, blob_type = ''image/jpeg'', blob_data = 7\<rparr>),
        map (\<lambda>q. ToBlob example_canvas ''image/jpeg'' (Some q))
          [1,
           2476979795053773 / 4503599627370496,
           5854679515581645 / 18014398509481984,
           7 / 16,
           3433994715870003 / 9007199254740992,
           7374644389819187 / 18014398509481984,
           3813985934429389 / 9007199254740992,
           3750654064669491 / 9007199254740992,
           1859494064894771 / 4503599627370496,
           421 / 1024,
           3695238678629581 / 9007199254740992])"
proof -
  have fmt: "''image/jpeg'' \<noteq> ''image/png''" by simp
  note enc = scaling_encoder [of example_canvas "''image/jpeg''"]
  have over: "800 * 1024 < int (blob_size (scaling_blob ''image/jpeg'' 1))"
    by (simp add: scaling_blob_def)
  from compress_search [OF fmt enc, of 800, THEN conjunct2] over
  have "compress scaling_browser example_canvas 800 ''image/jpeg'' =
       (Inr (Some \<lparr>blob_size = 818749, blob_type = ''image/jpeg'', blob_data = 7\<rparr>),
        map (\<lambda>q. ToBlob example_canvas ''image/jpeg'' (Some q))
          [1,
           2476979795053773 / 4503599627370496,
           5854679515581645 / 18014398509481984,
           7 / 16,
           3433994715870003 / 9007199254740992,
           7374644389819187 / 18014398509481984,
           3813985934429389 / 9007199254740992,
           3750654064669491 / 9007199254740992,
           1859494064894771 / 4503599627370496,
           421 / 1024,
           3695238678629581 / 9007199254740992])"
    by (simp add: search_example Let_def)
  with fmt enc over show ?thesis by blast
qed



section \<open>The output file name\<close>

lemma lastIndexOf_absent: "c \<notin> set s \<Longrightarrow> lastIndexOf s c = - 1"
  by (induction s) (auto simp: Let_def)

lemma lastIndexOf_split:
  "c \<notin> set suf \<Longrightarrow> lastIndexOf (pre @ c # suf) c = int (length pre)"
  by (induction pre) (auto simp: Let_def lastIndexOf_absent)

lemma baseName_dotless: "CHR ''.'' \<notin> set name \<Longrightarrow> baseName_of name = name"
  by (simp add: baseName_of_def lastIndexOf_absent substring_def or_string_def)

lemma baseName_dotted:
  "CHR ''.'' \<notin> set suf \<Longrightarrow>
   baseName_of (pre @ CHR ''.'' # suf) = (if pre = [] then pre @ CHR ''.'' # suf else pre)"
  by (simp add: baseName_of_def lastIndexOf_split substring_def or_string_def Let_def)

lemma process_success_name:
  assumes "process br imageInfo cfg = (Inr r, efs)" and "wasProcessed r"
  shows "outputFileName r =
           Some (baseName_of (file_name (info_file imageInfo)) @ outputExtension_of cfg)"
  using assms
  by (auto simp: process_def Let_def split: if_splits option.splits sum.splits)

text \<open>
  Claim C10, as amended. For every image that \<open>process\<close> transforms successfully: if
  the original name contains no \<open>.\<close>, the output name is the whole original name
  followed by the configured extension; if it contains one, write the name as
  \<open>pre . suf\<close> with no \<open>.\<close> in \<open>suf\<close>: the output name is \<open>pre\<close> followed by the
  extension when \<open>pre\<close> is not empty, and the whole original name followed by the
  extension when \<open>pre\<close> is empty (the only \<open>.\<close> is the first character).
\<close>

theorem process_outputFileName:
  assumes "process br imageInfo cfg = (Inr r, efs)" and "wasProcessed r"
  shows "(CHR ''.'' \<notin> set (file_name (info_file imageInfo)) \<longrightarrow>
            outputFileName r = Some (file_name (info_file imageInfo) @ outputExtension_of cfg))
       \<and> (\<forall>pre suf. file_name (info_file imageInfo) = pre @ CHR ''.'' # suf
             \<and> CHR ''.'' \<notin> set suf \<longrightarrow>
            outputFileName r =
              Some ((if pre = [] then file_name (info_file imageInfo) else pre)
                    @ outputExtension_of cfg))"
  using process_success_name [OF assms]
  by (auto simp: baseName_dotless baseName_dotted)

theorem process_outputFileName_witness:
  "(process example_browser (example_info ''photo'' ''blob:ok'') default_config =
      (Inr (example_result ''photo''),
       [LoadImage ''blob:ok'', ToBlob example_canvas ''image/jpeg'' (Some 1)])
    \<and> wasProcessed (example_result ''photo'')
    \<and> CHR ''.'' \<notin> set ''photo''
    \<and> outputFileName (example_result ''photo'') = Some ''photo.jpg'')
 \<and> (process example_browser (example_info ''a.b.png'' ''blob:ok'') default_config =
      (Inr (example_result ''a.b.png''),
       [LoadImage ''blob:ok'', ToBlob example_canvas ''image/jpeg'' (Some 1)])
    \<and> wasProcessed (example_result ''a.b.png'')
    \<and> ''a.b.png'' = ''a.b'' @ CHR ''.'' # ''png'' \<and> CHR ''.'' \<notin> set ''png''
    \<and> outputFileName (example_result ''a.b.png'') = Some ''a.b.jpg'')"
proof -
  have run1: "process example_browser (example_info ''photo'' ''blob:ok'') default_config =
      (Inr (example_result ''photo''),
       [LoadImage ''blob:ok'', ToBlob example_canvas ''image/jpeg'' (Some 1)])"
    by (simp add: process_eval)
  have run2: "process example_browser (example_info ''a.b.png'' ''blob:ok'') default_config =
      (Inr (example_result ''a.b.png''),
       [LoadImage ''blob:ok'', ToBlob example_canvas ''image/jpeg'' (Some 1)])"
    by (simp add: process_eval)
  have w: "wasProcessed (example_result n)" for n
    by (simp add: example_result_def)
  have n1: "file_name (info_file (example_info ''photo'' ''blob:ok'')) = ''photo''"
    and n2: "file_name (info_file (example_info ''a.b.png'' ''blob:ok'')) = ''a.b.png''"
    and e: "outputExtension_of default_config = ''.jpg''"
    by (simp_all add: example_info_def example_file_def outputExtension_of_def
        default_config_def CONFIG_outputExtension_def)
  have c1: "outputFileName (example_result ''photo'') = Some ''photo.jpg''"
    using process_outputFileName [OF run1 w, THEN conjunct1] by (simp add: n1 e)
  have c2: "outputFileName (example_result ''a.b.png'') = Some ''a.b.jpg''"
    using process_outputFileName [OF run2 w, THEN conjunct2, rule_format, of "''a.b''" "''png''"]
    by (simp add: n2 e)
  show ?thesis
    using run1 run2 w c1 c2 by simp
qed

text \<open>
  The claim as first stated takes the base name to be everything before the last \<open>.\<close>
  whenever there is one. For the name \<open>.png\<close> that is the empty string, and the
  output name would be \<open>.jpg\<close>; \<open>process\<close> produces \<open>.png.jpg\<close>.
\<close>

theorem process_outputFileName_counterexample:
  "process example_browser (example_info ''.png'' ''blob:ok'') default_config =
     (Inr (example_result ''.png''),
      [LoadImage ''blob:ok'', ToBlob example_canvas ''image/jpeg'' (Some 1)])
   \<and> wasProcessed (example_result ''.png'')
   \<and> CHR ''.'' \<in> set ''.png''
   \<and> take (nat (lastIndexOf ''.png'' CHR ''.'')) ''.png'' = ''''
   \<and> outputFileName (example_result ''.png'') = Some ''.png.jpg''
   \<and> outputFileName (example_result ''.png'') \<noteq> Some ('''' @ ''.jpg'')"
  by (simp add: process_eval)

section \<open>The batch loop\<close>

declare processAll_loop.simps [simp del]

lemma loop_results:
  "batch_results (processAll_loop br images cfg i st) =
     batch_results st @ map (\<lambda>info. pushed_result br info cfg) (drop i images)"
proof (induction br images cfg i st rule: processAll_loop.induct)
  case (1 br images cfg i st)
  show ?case
  proof (cases "i < length images")
    case True
    then show ?thesis
      using "1.IH" [OF True refl refl refl refl refl]
      by (subst processAll_loop.simps) (simp add: Let_def Cons_nth_drop_Suc [symmetric])
  next
    case False
    then show ?thesis
      by (subst processAll_loop.simps) simp
  qed
qed

lemma loop_completed:
  "map completed (batch_progress (processAll_loop br images cfg i st)) =
     map completed (batch_progress st) @ concat (map (\<lambda>k. [k, Suc k]) [i..<length images])"
proof (induction br images cfg i st rule: processAll_loop.induct)
  case (1 br images cfg i st)
  show ?case
  proof (cases "i < length images")
    case True
    then show ?thesis
      using "1.IH" [OF True refl refl refl refl refl]
      by (subst processAll_loop.simps) (simp add: Let_def upt_conv_Cons)
  next
    case False
    then show ?thesis
      by (subst processAll_loop.simps) simp
  qed
qed

lemma loop_total:
  "map total (batch_progress (processAll_loop br images cfg i st)) =
     map total (batch_progress st) @ replicate (2 * (length images - i)) (length images)"
proof (induction br images cfg i st rule: processAll_loop.induct)
  case (1 br images cfg i st)
  show ?case
  proof (cases "i < length images")
    case True
    then have "2 * (length images - i) = Suc (Suc (2 * (length images - (i + 1))))"
      by simp
    then show ?thesis
      using "1.IH" [OF True refl refl refl refl refl] True
      by (subst processAll_loop.simps) (simp add: Let_def replicate_append_same)
  next
    case False
    then show ?thesis
      by (subst processAll_loop.simps) simp
  qed
qed

lemma completed_sequence_sorted: "sorted (concat (map (\<lambda>k. [k, Suc k]) [i..<n]))"
proof (induction n)
  case 0
  show ?case by simp
next
  case (Suc n)
  show ?case
  proof (cases "i \<le> n")
    case True
    have "\<forall>x \<in> set (concat (map (\<lambda>k. [k, Suc k]) [i..<n])). x \<le> n"
      by auto
    with Suc True show ?thesis
      by (auto simp: sorted_append)
  next
    case False
    then show ?thesis by simp
  qed
qed

lemma completed_sequence_last:
  "i < n \<Longrightarrow> last (concat (map (\<lambda>k. [k, Suc k]) [i..<n])) = n"
  by (cases n) simp_all

lemma process_originalFile:
  "process br imageInfo cfg = (Inr r, efs) \<Longrightarrow> originalFile r = info_file imageInfo"
  by (auto simp: process_def Let_def split: if_splits option.splits sum.splits)

lemma pushed_result_originalFile:
  "originalFile (pushed_result br imageInfo cfg) = info_file imageInfo"
proof (cases "process br imageInfo cfg")
  case (Pair a b)
  then show ?thesis
    by (cases a) (auto simp: pushed_result_def failure_result_def dest: process_originalFile)
qed

text \<open>
  Claim C3. For every batch of \<open>N\<close> items, \<open>processAll\<close> calls the progress callback
  exactly \<open>2 * N\<close> times, once before and once after each item: the \<open>completed\<close> values
  are \<open>0, 1, 1, 2, \<dots>, N - 1, N\<close>, a non-decreasing sequence. When the batch is not empty
  the last call has \<open>completed = total = N\<close>. The returned array has length \<open>N\<close>, and its
  entry \<open>i\<close> is what processing input item \<open>i\<close> pushed, carrying that item's file.
\<close>

theorem processAll_progress:
  "length (batch_progress (processAll br images cfg)) = 2 * length images
   \<and> map completed (batch_progress (processAll br images cfg)) =
       concat (map (\<lambda>i. [i, Suc i]) [0..<length images])
   \<and> sorted (map completed (batch_progress (processAll br images cfg)))
   \<and> (images \<noteq> [] \<longrightarrow>
        completed (last (batch_progress (processAll br images cfg))) = length images
        \<and> total (last (batch_progress (processAll br images cfg))) = length images)
   \<and> length (batch_results (processAll br images cfg)) = length images
   \<and> (\<forall>i < length images.
        batch_results (processAll br images cfg) ! i = pushed_result br (images ! i) cfg
        \<and> originalFile (batch_results (processAll br images cfg) ! i) = info_file (images ! i))"
proof -
  let ?b = "processAll br images cfg"
  let ?n = "length images"
  have res: "batch_results ?b = map (\<lambda>info. pushed_result br info cfg) images"
    by (simp add: processAll_def loop_results)
  have com: "map completed (batch_progress ?b) = concat (map (\<lambda>i. [i, Suc i]) [0..<?n])"
    by (simp add: processAll_def loop_completed)
  have tot: "map total (batch_progress ?b) = replicate (2 * ?n) ?n"
    by (simp add: processAll_def loop_total)
  have len: "length (batch_progress ?b) = 2 * ?n"
    using arg_cong [OF tot, of length] by simp
  have srt: "sorted (map completed (batch_progress ?b))"
    by (simp add: com completed_sequence_sorted)
  have fin: "completed (last (batch_progress ?b)) = ?n \<and> total (last (batch_progress ?b)) = ?n"
    if "images \<noteq> []"
  proof -
    from that len have ne: "batch_progress ?b \<noteq> []" by auto
    have "completed (last (batch_progress ?b)) = last (map completed (batch_progress ?b))"
      using ne by (simp add: last_map)
    also have "\<dots> = ?n"
      using that by (simp add: com completed_sequence_last)
    finally have c: "completed (last (batch_progress ?b)) = ?n" .
    have "total (last (batch_progress ?b)) = last (map total (batch_progress ?b))"
      using ne by (simp add: last_map)
    also have "\<dots> = ?n"
      using that by (simp add: tot)
    finally show ?thesis using c by simp
  qed
  show ?thesis
    using len com srt fin res by (simp add: pushed_result_originalFile)
qed

theorem processAll_progress_witness:
  "[small_info, example_info ''a.png'' ''blob:broken''] \<noteq> []
   \<and> length (batch_progress (processAll example_browser
          [small_info, example_info ''a.png'' ''blob:broken''] default_config)) = 4
   \<and> map completed (batch_progress (processAll example_browser
          [small_info, example_info ''a.png'' ''blob:broken''] default_config)) = [0, 1, 1, 2]
   \<and> completed (last (batch_progress (processAll example_browser
          [small_info, example_info ''a.png'' ''blob:broken''] default_config))) = 2
   \<and> total (last (batch_progress (processAll example_browser
          [small_info, example_info ''a.png'' ''blob:broken''] default_config))) = 2
   \<and> length (batch_results (processAll example_browser
          [small_info, example_info ''a.png'' ''blob:broken''] default_config)) = 2
   \<and> originalFile (batch_results (processAll example_browser
          [small_info, example_info ''a.png'' ''blob:broken''] default_config) ! 1)
       = example_file ''a.png''"
proof -
  let ?imgs = "[small_info, example_info ''a.png'' ''blob:broken'']"
  let ?b = "processAll example_browser ?imgs default_config"
  note t = processAll_progress [of example_browser ?imgs default_config]
  have ne: "?imgs \<noteq> []" by simp
  have l: "length ?imgs = 2" by simp
  have a: "length (batch_progress ?b) = 4"
    using t [THEN conjunct1] unfolding l by simp
  have b: "map completed (batch_progress ?b) = [0, 1, 1, 2]"
    using t [THEN conjunct2, THEN conjunct1] by (simp add: upt_conv_Cons)
  have c: "completed (last (batch_progress ?b)) = 2 \<and> total (last (batch_progress ?b)) = 2"
    using t [THEN conjunct2, THEN conjunct2, THEN conjunct2, THEN conjunct1] ne
    unfolding l by simp
  have d: "length (batch_results ?b) = 2"
    using t [THEN conjunct2, THEN conjunct2, THEN conjunct2, THEN conjunct2, THEN conjunct1]
    by (simp only: l)
  have "1 < length ?imgs" by simp
  with t [THEN conjunct2, THEN conjunct2, THEN conjunct2, THEN conjunct2, THEN conjunct2]
  have "originalFile (batch_results ?b ! 1) = info_file (?imgs ! 1)"
    by blast
  then have e: "originalFile (batch_results ?b ! 1) = example_file ''a.png''"
    by (simp add: example_info_def)
  from ne a b c d e show ?thesis by simp
qed

section \<open>Failing items\<close>

text \<open>
  Whatever \<open>process\<close> throws for an item, the loop pushes the failure object for that
  item, with no blob and \<open>wasProcessed = false\<close>, and goes on (the results of all items
  are given by \<open>loop_results\<close>). The \<open>error\<close> field of the failure object is the
  \<open>message\<close> of what was thrown.
\<close>

lemma process_failure_pushed:
  "process br imageInfo cfg = (Inl e, efs) \<Longrightarrow>
   pushed_result br imageInfo cfg =
     \<lparr>originalFile = info_file imageInfo, processedBlob = None, finalWidth = None,
      finalHeight = None, finalSize = None, wasProcessed = False, outputFileName = None,
      error = message e\<rparr>"
  by (simp add: pushed_result_def failure_result_def)

text \<open>
  Claim C4 asks for a populated failure reason on every failure. It is not populated
  when the image of an item fails to load: the value thrown is the DOM event, whose
  \<open>message\<close> is undefined. Below, the first item of a batch of two fails to load; its
  failure object has no \<open>error\<close>, and the second item is processed as usual.
\<close>

theorem processAll_load_failure:
  "batch_results (processAll example_browser
     [example_info ''a.png'' ''blob:broken'', example_info ''photo.png'' ''blob:ok'']
     default_config) =
     [\<lparr>originalFile = example_file ''a.png'', processedBlob = None, finalWidth = None,
       finalHeight = None, finalSize = None, wasProcessed = False, outputFileName = None,
       error = None\<rparr>,
      example_result ''photo.png'']"
  by (simp add: processAll_def loop_results pushed_result_def failure_result_def
      process_eval)

section \<open>The archive\<close>

lemma add_results_names:
  "fst ` set (add_results rs folder) =
     fst ` set folder \<union> fileName_of ` {r \<in> set rs. processedBlob r \<noteq> None}"
  by (induction rs arbitrary: folder) (auto simp: dom_update split: option.splits)

lemma update_set_subset: "set (AList.update k v al) \<subseteq> insert (k, v) (set al)"
  by (induction al) auto

lemma add_results_contents:
  "(n, b) \<in> set (add_results rs folder) \<Longrightarrow>
   (n, b) \<in> set folder \<or> (\<exists>r \<in> set rs. processedBlob r = Some b \<and> fileName_of r = n)"
proof (induction rs arbitrary: folder)
  case Nil
  then show ?case by simp
next
  case (Cons r rs)
  show ?case
  proof (cases "processedBlob r")
    case None
    with Cons show ?thesis by auto
  next
    case (Some c)
    with Cons.prems have "(n, b) \<in> set (add_results rs (AList.update (fileName_of r) c folder))"
      by simp
    from Cons.IH [OF this] show ?thesis
    proof
      assume "(n, b) \<in> set (AList.update (fileName_of r) c folder)"
      then have "(n, b) \<in> insert (fileName_of r, c) (set folder)"
        using update_set_subset [of "fileName_of r" c folder] by blast
      then have "(n, b) \<in> set folder \<or> (n = fileName_of r \<and> b = c)"
        by auto
      with Some show ?thesis by auto
    next
      assume "\<exists>r \<in> set rs. processedBlob r = Some b \<and> fileName_of r = n"
      then show ?thesis by auto
    qed
  qed
qed

text \<open>
  Claim C9 asks for exactly one archive entry per result that has a blob. Two results of
  one folder with the same output name share one entry, which holds the blob of the
  later result: below, \<open>a.png\<close> and \<open>a.jpeg\<close> are both named \<open>a.jpg\<close>, and the archive
  has one entry for the two of them. (The names of the entries, and that results without
  a blob contribute nothing, are as claimed: \<open>add_results_names\<close>,
  \<open>add_results_contents\<close>.)
\<close>

theorem createZip_name_collision:
  "createZip
     [(example_result ''a.png'')
        \<lparr>processedBlob := Some (BlobObject (example_blob\<lparr>blob_data := 1\<rparr>))\<rparr>,
      (example_result ''a.jpeg'')
        \<lparr>processedBlob := Some (BlobObject (example_blob\<lparr>blob_data := 2\<rparr>))\<rparr>]
     ''out''
   = [(''out'', [(''a.jpg'', BlobObject (example_blob\<lparr>blob_data := 2\<rparr>))])]"
  by (simp add: createZip_def fileName_of_def example_result_def baseName_of_def
      substring_def or_string_def Let_def)

end
